theory Spec2Isabelle
  imports Main
begin

section \<open>The in-flight ledger (ife.go)\<close>

text \<open>
  \<^verbatim>\<open>inFlightEvents\<close> embeds a \<^verbatim>\<open>sync.RWMutex\<close> next to the slice of ids.
  \<^verbatim>\<open>push\<close>, \<^verbatim>\<open>pull\<close> and \<^verbatim>\<open>count\<close> take the mutex for the length of the call; the
  consumer also calls the promoted \<^verbatim>\<open>Lock\<close> and \<^verbatim>\<open>Unlock\<close> directly and keeps the
  mutex held across calls. The field \<open>locked\<close> records that the write lock is held
  in this second way.
\<close>

record inFlightEvents =
  ids :: "string list"
  locked :: bool

definition newInFlightEvents :: inFlightEvents where
  "newInFlightEvents = \<lparr>ids = [], locked = False\<rparr>"

text \<open>The body of \<^verbatim>\<open>count\<close>: \<^verbatim>\<open>len(ife.ids)\<close>, a Go \<^verbatim>\<open>int\<close>.\<close>

definition count_ids :: "string list \<Rightarrow> int" where
  "count_ids xs = int (length xs)"

text \<open>
  The body of \<^verbatim>\<open>push\<close>. The \<^verbatim>\<open>range\<close> loop returns as soon as it meets the id;
  when it runs to the end the id is appended.
\<close>

fun push_scan :: "string \<Rightarrow> string list \<Rightarrow> bool" where
  "push_scan i [] = False"
| "push_scan i (eid # rest) = (if eid = i then True else push_scan i rest)"

definition push_ids :: "string \<Rightarrow> string list \<Rightarrow> string list" where
  "push_ids i xs = (if push_scan i xs then xs else xs @ [i])"

text \<open>
  The body of \<^verbatim>\<open>pull\<close>. \<open>pull_scan\<close> is the \<^verbatim>\<open>range\<close> loop with its counter: it
  stops at the first element equal to the id. \<^verbatim>\<open>append(ids[:i], ids[i+1:]...)\<close>
  keeps the elements before and after position \<open>i\<close>. The index starts at \<open>-1\<close>
  and stays there when the loop finds nothing.
\<close>

fun pull_scan :: "string \<Rightarrow> string list \<Rightarrow> nat \<Rightarrow> nat option" where
  "pull_scan i [] n = None"
| "pull_scan i (eid # rest) n = (if eid = i then Some n else pull_scan i rest (Suc n))"

definition pull_ids :: "string \<Rightarrow> string list \<Rightarrow> int \<times> string list" where
  "pull_ids i xs =
     (case pull_scan i xs 0 of
        None \<Rightarrow> (- 1, xs)
      | Some n \<Rightarrow> (int n, take n xs @ drop (Suc n) xs))"

text \<open>
  A call on the ledger by one goroutine either completes, or waits for the mutex
  (\<open>Blocked\<close>), or stops the program: unlocking a mutex that is not locked is a
  fatal runtime error in Go (\<open>Fatal\<close>).
\<close>

datatype 'a outcome = Completed 'a | Blocked | Fatal

definition count :: "inFlightEvents \<Rightarrow> int outcome" where
  "count ife = (if locked ife then Blocked else Completed (count_ids (ids ife)))"

definition push :: "string \<Rightarrow> inFlightEvents \<Rightarrow> inFlightEvents outcome" where
  "push i ife =
     (if locked ife then Blocked else Completed (ife\<lparr>ids := push_ids i (ids ife)\<rparr>))"

definition pull :: "string \<Rightarrow> inFlightEvents \<Rightarrow> (int \<times> inFlightEvents) outcome" where
  "pull i ife =
     (if locked ife then Blocked
      else (case pull_ids i (ids ife) of (index, xs) \<Rightarrow> Completed (index, ife\<lparr>ids := xs\<rparr>)))"

definition Lock :: "inFlightEvents \<Rightarrow> inFlightEvents outcome" where
  "Lock ife = (if locked ife then Blocked else Completed (ife\<lparr>locked := True\<rparr>))"

definition Unlock :: "inFlightEvents \<Rightarrow> inFlightEvents outcome" where
  "Unlock ife = (if locked ife then Completed (ife\<lparr>locked := False\<rparr>) else Fatal)"

section \<open>Operations (operation.go)\<close>

text \<open>
  \<^verbatim>\<open>OperationData\<close> is the JSON payload of a record. The timestamp is kept as the
  text it has on the wire. \<^verbatim>\<open>Operation.Data\<close> is a pointer: \<open>None\<close> is \<^verbatim>\<open>nil\<close>.
  The field \<^verbatim>\<open>ack\<close>, a channel handle, is left out of the record; sending on it is the
  event \<open>ack_case\<close> below.
\<close>

record OperationData =
  od_ID :: string
  od_Type :: string
  od_Ref :: string
  od_Timestamp :: string
  od_Parents :: "string list"

record Operation =
  ID :: string
  Event :: string
  Data :: "OperationData option"

text \<open>\<^verbatim>\<open>Operation{}\<close>, the scratch operation \<^verbatim>\<open>readStream\<close> starts with.\<close>

definition empty_Operation :: Operation where
  "empty_Operation = \<lparr>ID = [], Event = [], Data = None\<rparr>"

text \<open>\<^verbatim>\<open>Validate\<close>; the decoder calls it as \<^verbatim>\<open>op.validate()\<close>.\<close>

definition Validate :: "Operation \<Rightarrow> bool" where
  "Validate o' =
     (if Event o' = [] then False
      else if Data o' = None \<and> Event o' \<noteq> ''reset'' \<and> Event o' \<noteq> ''live'' then False
      else True)"

section \<open>Errors\<close>

text \<open>
  The error values of the package, and the errors it passes on from the standard
  library. \<open>ErrInvalidState\<close> is \<^verbatim>\<open>errors.New("state file contains invalid data")\<close>,
  \<open>ErrHTTP code body\<close> is \<^verbatim>\<open>fmt.Errorf("HTTP error %d: %s", code, body)\<close>,
  \<open>ErrNotExist\<close> is an error for which \<^verbatim>\<open>os.IsNotExist\<close> holds, \<open>ErrLibrary\<close> is any
  other error of the standard library.
\<close>

datatype error =
    ErrIncompleteEvent
  | ErrInvalidEvent
  | ErrConnectionClosed
  | ErrAccessDenied
  | ErrResumeFailed
  | ErrWritingState
  | ErrInvalidState
  | ErrHTTP int string
  | ErrNotExist
  | ErrLibrary string

section \<open>The event decoder\<close>

subsection \<open>The string functions the decoder calls\<close>

text \<open>
  \<^verbatim>\<open>bufio.Reader.ReadString(delim)\<close> on the unread input: the text up to and
  including the first delimiter, and what is left; \<open>None\<close> when the input ends (or
  the read fails) before a delimiter comes.
\<close>

fun ReadString :: "string \<Rightarrow> char \<Rightarrow> (string \<times> string) option" where
  "ReadString [] delim = None"
| "ReadString (c # cs) delim =
     (if c = delim then Some ([c], cs)
      else (case ReadString cs delim of
              None \<Rightarrow> None
            | Some (line, rest) \<Rightarrow> Some (c # line, rest)))"

definition HasPrefix :: "string \<Rightarrow> string \<Rightarrow> bool" where
  "HasPrefix s p = (take (length p) s = p)"

definition TrimPrefix :: "string \<Rightarrow> string \<Rightarrow> string" where
  "TrimPrefix s p = (if HasPrefix s p then drop (length p) s else s)"

definition HasSuffix :: "string \<Rightarrow> string \<Rightarrow> bool" where
  "HasSuffix s p = (length p \<le> length s \<and> drop (length s - length p) s = p)"

definition TrimSuffix :: "string \<Rightarrow> string \<Rightarrow> string" where
  "TrimSuffix s p = (if HasSuffix s p then take (length s - length p) s else s)"

text \<open>
  \<^verbatim>\<open>strings.SplitN(s, sep, 2)\<close> for a separator of one byte: one section when the
  separator does not occur, else the text before its first occurrence and the text
  after it.
\<close>

fun cut :: "string \<Rightarrow> char \<Rightarrow> (string \<times> string) option" where
  "cut [] sep = None"
| "cut (c # cs) sep =
     (if c = sep then Some ([], cs)
      else (case cut cs sep of
              None \<Rightarrow> None
            | Some (before, after) \<Rightarrow> Some (c # before, after)))"

definition SplitN2 :: "string \<Rightarrow> char \<Rightarrow> string list" where
  "SplitN2 s sep = (case cut s sep of None \<Rightarrow> [s] | Some (before, after) \<Rightarrow> [before, after])"

subsection \<open>\<^verbatim>\<open>decoder.next\<close>\<close>

text \<open>
  \<^verbatim>\<open>json.Unmarshal(value, &op.Data)\<close> belongs to the standard library; the decoder
  takes it as a parameter. Given the text and the present value of \<^verbatim>\<open>op.Data\<close> it
  returns whether it failed and the value \<^verbatim>\<open>op.Data\<close> has afterwards.
\<close>

type_synonym unmarshal = "string \<Rightarrow> OperationData option \<Rightarrow> bool \<times> OperationData option"

text \<open>A decoder is the unread input of its \<^verbatim>\<open>bufio.Reader\<close>.\<close>

type_synonym decoder = string

definition newDecoder :: "string \<Rightarrow> decoder" where
  "newDecoder r = r"

text \<open>
  The \<^verbatim>\<open>switch\<close> on the field name, with the variable \<^verbatim>\<open>err\<close> as it goes in and
  comes out. The \<^verbatim>\<open>break\<close> of the \<^verbatim>\<open>data\<close> case stands inside the \<^verbatim>\<open>switch\<close>, so
  in Go it leaves the \<^verbatim>\<open>switch\<close> only, with \<^verbatim>\<open>err = ErrInvalidEvent\<close>.
\<close>

definition field_switch ::
  "unmarshal \<Rightarrow> error option \<Rightarrow> string \<Rightarrow> string \<Rightarrow> Operation \<Rightarrow> error option \<times> Operation"
where
  "field_switch u err field value op =
     (if field = ''id'' then (err, op\<lparr>ID := value\<rparr>)
      else if field = ''event'' then (err, op\<lparr>Event := value\<rparr>)
      else if field = ''data'' then
        (case u value (Data op) of
           (failed, data) \<Rightarrow> (if failed then Some ErrInvalidEvent else None, op\<lparr>Data := data\<rparr>))
      else (err, op))"

text \<open>
  The \<^verbatim>\<open>for\<close> loop of \<^verbatim>\<open>next\<close>, with its variables \<^verbatim>\<open>err\<close>, \<^verbatim>\<open>started\<close> and the
  operation being filled. Every round begins by assigning the result of
  \<^verbatim>\<open>ReadString\<close> to \<^verbatim>\<open>err\<close>: \<^verbatim>\<open>nil\<close> when a line was read. The loop is left where
  the read fails and where a blank line follows a field line; after the \<^verbatim>\<open>switch\<close>
  it goes round again. After a failed read nothing is left to read.
\<close>

function next_loop ::
  "unmarshal \<Rightarrow> error option \<Rightarrow> bool \<Rightarrow> Operation \<Rightarrow> decoder \<Rightarrow> error option \<times> Operation \<times> decoder"
where
  "next_loop u err started op d =
     (case ReadString d (CHR 0x0A) of
        None \<Rightarrow> (Some ErrConnectionClosed, op, [])
      | Some (line, rest) \<Rightarrow>
          if line = [CHR 0x0A] then
            (if started then (None, op, rest) else next_loop u None started op rest)
          else if HasPrefix (TrimSuffix line [CHR 0x0A]) '':'' then
            next_loop u None started op rest
          else
            (let sections = SplitN2 (TrimSuffix line [CHR 0x0A]) (CHR '':'');
                 field = sections ! 0;
                 value = (if length sections = 2 then TrimPrefix (sections ! 1) '' '' else [])
             in case field_switch u None field value op of
                  (err1, op1) \<Rightarrow> next_loop u err1 True op1 rest))"
  by pat_completeness auto
termination
proof -
  have len: "length r < length s" if "ReadString s c = Some (l, r)" for s c l r
    using that by (induction s arbitrary: l) (auto split: if_splits option.splits)
  show ?thesis
    by (relation "measure (\<lambda>(u, err, started, op, d). length d)") (auto dest: len)
qed

declare next_loop.simps [simp del]

definition "next" :: "unmarshal \<Rightarrow> Operation \<Rightarrow> decoder \<Rightarrow> error option \<times> Operation \<times> decoder" where
  "next u op d =
     (case next_loop u None False (op\<lparr>Event := [], Data := None\<rparr>) d of
        (err, op1, d1) \<Rightarrow>
          (let err1 = (if err = None \<and> Event op1 = [] then Some ErrIncompleteEvent else err);
               err2 = (if \<not> Validate op1 then Some ErrInvalidEvent else err1)
           in (err2, op1, d1)))"

text \<open>
  Calling \<^verbatim>\<open>next\<close> \<open>n\<close> times on one decoder with one scratch operation, whatever
  each call returns, as a caller that keeps both does.
\<close>

fun next_times :: "unmarshal \<Rightarrow> nat \<Rightarrow> Operation \<Rightarrow> decoder \<Rightarrow> Operation \<times> decoder" where
  "next_times u 0 op d = (op, d)"
| "next_times u (Suc n) op d = (case next u op d of (err, op1, d1) \<Rightarrow> next_times u n op1 d1)"

subsection \<open>The id lines of a text\<close>

text \<open>
  An \<^verbatim>\<open>id:\<close> line of a text and the most recent one, said without the decoder: the lines of a text are its parts that end in a newline; a
  line is an id line when the text before its first colon (the whole line when it
  has none) is \<^verbatim>\<open>id\<close>, and its value is what follows the colon, less one leading
  space; \<open>last_id i s\<close> is the value of the last id line of \<open>s\<close>, and \<open>i\<close> when \<open>s\<close>
  has none.
\<close>

definition id_line :: "string \<Rightarrow> string option" where
  "id_line l =
     (if takeWhile (\<lambda>c. c \<noteq> CHR '':'') l = ''id'' then
        (let v = drop 1 (dropWhile (\<lambda>c. c \<noteq> CHR '':'') l)
         in Some (if take 1 v = '' '' then drop 1 v else v))
      else None)"

fun lines_acc :: "string \<Rightarrow> string \<Rightarrow> string list" where
  "lines_acc cur [] = []"
| "lines_acc cur (c # cs) =
     (if c = CHR 0x0A then cur # lines_acc [] cs else lines_acc (cur @ [c]) cs)"

definition complete_lines :: "string \<Rightarrow> string list" where
  "complete_lines s = lines_acc [] s"

definition last_id :: "string \<Rightarrow> string \<Rightarrow> string" where
  "last_id i s = foldl (\<lambda>j l. case id_line l of None \<Rightarrow> j | Some v \<Rightarrow> v) i (complete_lines s)"

section \<open>The consumer\<close>

record Filter =
  Types :: "string list"
  Parents :: "string list"

record Options =
  StateFile :: string
  AllowReplication :: bool
  Password :: string
  Filter :: Filter

text \<open>
  The fields of \<^verbatim>\<open>Consumer\<close> that hold data. \<open>body\<close> is the response body being
  streamed, as the text still to be read; \<open>None\<close> is \<^verbatim>\<open>nil\<close>. The mutex \<^verbatim>\<open>mu\<close>, the
  HTTP client and the two channels are left out: calls that hold \<^verbatim>\<open>mu\<close> are single
  steps here.
\<close>

record Consumer =
  url :: string
  options :: Options
  lastId :: string
  saved :: bool
  processing :: bool
  body :: "string option"
  ife :: inFlightEvents

definition LastId :: "Consumer \<Rightarrow> string" where
  "LastId c = lastId c"

definition SetLastId :: "string \<Rightarrow> Consumer \<Rightarrow> Consumer" where
  "SetLastId i c = c\<lparr>lastId := i, saved := False\<rparr>"

text \<open>\<^verbatim>\<open>strings.Join\<close>.\<close>

fun Join :: "string list \<Rightarrow> string \<Rightarrow> string" where
  "Join [] sep = []"
| "Join [x] sep = x"
| "Join (x # y # ys) sep = x @ sep @ Join (y # ys) sep"

definition Subscribe :: "string \<Rightarrow> Options \<Rightarrow> Consumer" where
  "Subscribe u opts =
     (let qs0 = [];
          qs1 = (if length (Parents (Filter opts)) > 0 then
                   (let parents = Join (Parents (Filter opts)) '','' in
                    if parents \<noteq> [] then qs0 @ ''?parents='' @ parents else qs0)
                 else qs0);
          qs2 = (if length (Types (Filter opts)) > 0 then
                   (let types = Join (Types (Filter opts)) '','' in
                    if types \<noteq> [] then
                      (if qs1 = [] then qs1 @ ''?'' else qs1 @ ''&'') @ ''types='' @ types
                    else qs1)
                 else qs1)
      in \<lparr>url = Join [u, qs2] [], options = opts, lastId = [], saved = False,
          processing = False, body = None, ife = newInFlightEvents\<rparr>)"

subsection \<open>The two places where the ledger is used\<close>

text \<open>
  The control loop of \<^verbatim>\<open>Start\<close>, case \<^verbatim>\<open>op := <-c.ack\<close>: unlock the ledger for a
  \<^verbatim>\<open>reset\<close>, pull the id, and set the position when the index is 0.
\<close>

definition ack_case :: "Operation \<Rightarrow> Consumer \<Rightarrow> Consumer outcome" where
  "ack_case op c =
     (case (if Event op = ''reset'' then Unlock (ife c) else Completed (ife c)) of
        Blocked \<Rightarrow> Blocked
      | Fatal \<Rightarrow> Fatal
      | Completed l1 \<Rightarrow>
          (case pull (ID op) l1 of
             Blocked \<Rightarrow> Blocked
           | Fatal \<Rightarrow> Fatal
           | Completed (idx, l2) \<Rightarrow>
               Completed (if idx = 0 then SetLastId (ID op) (c\<lparr>ife := l2\<rparr>) else c\<lparr>ife := l2\<rparr>)))"

text \<open>
  \<^verbatim>\<open>readStream\<close> after a record has been decoded: push its id, and take the lock of
  the ledger when the event is \<^verbatim>\<open>reset\<close>.
\<close>

definition received :: "Operation \<Rightarrow> Consumer \<Rightarrow> Consumer outcome" where
  "received op c =
     (case push (ID op) (ife c) of
        Blocked \<Rightarrow> Blocked
      | Fatal \<Rightarrow> Fatal
      | Completed l1 \<Rightarrow>
          (case (if Event op = ''reset'' then Lock l1 else Completed l1) of
             Blocked \<Rightarrow> Blocked
           | Fatal \<Rightarrow> Fatal
           | Completed l2 \<Rightarrow> Completed (c\<lparr>ife := l2\<rparr>)))"

text \<open>
  A schedule is a sequence of these two steps, in the order in which the two
  goroutines get to them. It runs as long as every step completes; the first step
  that waits or fails is the result.
\<close>

datatype step = Received Operation | Acked Operation

fun run_step :: "step \<Rightarrow> Consumer \<Rightarrow> Consumer outcome" where
  "run_step (Received op) c = received op c"
| "run_step (Acked op) c = ack_case op c"

fun run :: "step list \<Rightarrow> Consumer \<Rightarrow> Consumer outcome" where
  "run [] c = Completed c"
| "run (st # sts) c =
     (case run_step st c of
        Blocked \<Rightarrow> Blocked
      | Fatal \<Rightarrow> Fatal
      | Completed c1 \<Rightarrow> run sts c1)"

text \<open>The position of the consumer at the end of a schedule that ran through.\<close>

definition position :: "Consumer outcome \<Rightarrow> string option" where
  "position r = (case r of Completed c \<Rightarrow> Some (lastId c) | Blocked \<Rightarrow> None | Fatal \<Rightarrow> None)"

subsection \<open>The read loop and its delays\<close>

text \<open>
  \<^verbatim>\<open>time.Duration\<close> counts nanoseconds in an \<^verbatim>\<open>int64\<close>. The delay of the loop
  stays between one second and 32 seconds (\<open>backoff_step_iterate\<close> below), far from
  the ends of the \<^verbatim>\<open>int64\<close> range, so an \<open>int\<close> holds it.
\<close>

definition Second :: int where
  "Second = 1000000000"

text \<open>What the read loop does that can be seen from outside it.\<close>

datatype action = Report error | Sleep int | Deliver

text \<open>The two lines after \<^verbatim>\<open>time.Sleep(backoff)\<close>.\<close>

definition backoff_step :: "int \<Rightarrow> int" where
  "backoff_step backoff = (if backoff < 30 * Second then backoff * 2 else backoff)"

text \<open>
  The loops of \<^verbatim>\<open>readStream\<close>, driven by the results (\<open>None\<close> is \<^verbatim>\<open>nil\<close>) of the
  calls of \<^verbatim>\<open>d.Next\<close> and \<^verbatim>\<open>c.connect\<close> in the order in which the loops make them.
  \<open>stream_loop\<close> is the outer loop at the call of \<^verbatim>\<open>d.Next\<close>, \<open>reconnect_loop\<close> the
  inner loop at \<^verbatim>\<open>time.Sleep\<close>. Nobody asks the loop to stop and the ledger lets
  every push through; the trace ends where the results end.
\<close>

fun stream_loop :: "int \<Rightarrow> error option list \<Rightarrow> action list"
  and reconnect_loop :: "int \<Rightarrow> error option list \<Rightarrow> action list" where
  "stream_loop backoff [] = []"
| "stream_loop backoff (None # results) = Deliver # stream_loop Second results"
| "stream_loop backoff (Some err # results) = Report err # reconnect_loop backoff results"
| "reconnect_loop backoff [] = [Sleep backoff]"
| "reconnect_loop backoff (None # results) =
     Sleep backoff # stream_loop (backoff_step backoff) results"
| "reconnect_loop backoff (Some err # results) =
     Sleep backoff # Report err # reconnect_loop (backoff_step backoff) results"

text \<open>\<^verbatim>\<open>readStream\<close>: the result of the first \<^verbatim>\<open>c.connect()\<close> is not looked at.\<close>

fun readStream :: "error option list \<Rightarrow> action list" where
  "readStream [] = []"
| "readStream (first_connect # results) = stream_loop Second results"

fun delays :: "action list \<Rightarrow> int list" where
  "delays [] = []"
| "delays (Sleep d # as) = d # delays as"
| "delays (a # as) = delays as"

text \<open>The delay before the reconnection attempt number \<open>k\<close>, counted from 0.\<close>

definition delay_after :: "nat \<Rightarrow> int" where
  "delay_after k = (if k < 5 then 2 ^ k * Second else 32 * Second)"

subsection \<open>\<^verbatim>\<open>connect\<close>\<close>

record Request =
  req_Method :: string
  req_URL :: string
  req_Header :: "(string \<times> string) list"
  req_BasicAuth :: "(string \<times> string) option"

record Response =
  StatusCode :: int
  Header :: "string \<rightharpoonup> string"
  Body :: string

text \<open>\<^verbatim>\<open>Header.Get\<close>: the empty string when the header is not there.\<close>

definition Get :: "(string \<rightharpoonup> string) \<Rightarrow> string \<Rightarrow> string" where
  "Get h k = (case h k of None \<Rightarrow> [] | Some v \<Rightarrow> v)"

text \<open>
  The network as \<^verbatim>\<open>connect\<close> sees it: the error of \<^verbatim>\<open>http.NewRequest\<close> for a URL,
  if there is one, and the result of \<^verbatim>\<open>http.Client.Do\<close> for a request.
\<close>

record network =
  NewRequest_error :: "string \<Rightarrow> error option"
  Do :: "Request \<Rightarrow> error + Response"

definition build_request :: "Consumer \<Rightarrow> Request" where
  "build_request c =
     \<lparr>req_Method = ''GET'', req_URL = url c,
      req_Header = [(''Cache-Control'', ''no-cache''), (''Accept'', ''text/event-stream'')]
        @ (if length (LastId c) > 0 then [(''Last-Event-ID'', LastId c)] else []),
      req_BasicAuth = (if Password (options c) \<noteq> [] then Some ([], Password (options c)) else None)\<rparr>"

text \<open>
  \<^verbatim>\<open>connect\<close> returns its error and leaves the consumer with a new body: the empty
  one set at the start, or the body of the response.
\<close>

definition connect :: "network \<Rightarrow> Consumer \<Rightarrow> error option \<times> Consumer" where
  "connect net c =
     (let c1 = c\<lparr>body := Some []\<rparr> in
      case NewRequest_error net (url c1) of
        Some err \<Rightarrow> (Some err, c1)
      | None \<Rightarrow>
          (case Do net (build_request c1) of
             Inl err \<Rightarrow> (Some err, c1)
           | Inr res \<Rightarrow>
               if LastId c1 \<noteq> [] \<and> Get (Header res) ''Last-Event-ID'' \<noteq> LastId c1 then
                 (Some ErrResumeFailed, c1)
               else if StatusCode res = 403 \<or> StatusCode res = 401 then
                 (Some ErrAccessDenied, c1)
               else if StatusCode res \<noteq> 200 then
                 (Some (ErrHTTP (StatusCode res) (Body res)), c1)
               else (None, c1\<lparr>body := Some (Body res)\<rparr>)))"

subsection \<open>\<^verbatim>\<open>loadLastEventID\<close>\<close>

text \<open>
  The regular expression \<^verbatim>\<open>^(?:[0-9]{0,13}|[0-9a-f]{24})$\<close> is built from character
  classes repeated a bounded number of times and from alternation. A class is a
  list of ranges of bytes. \<open>match_rests\<close> gives, for every way in which the
  expression matches a prefix of the text, what is left of the text; between \<^verbatim>\<open>^\<close>
  and \<^verbatim>\<open>$\<close> the expression has to use up the whole text.
\<close>

datatype regexp = Repeat "(char \<times> char) list" nat nat | Alternate regexp regexp

definition in_class :: "char \<Rightarrow> (char \<times> char) list \<Rightarrow> bool" where
  "in_class c ranges =
     list_ex (\<lambda>(lo, hi). (of_char lo :: nat) \<le> of_char c \<and> (of_char c :: nat) \<le> of_char hi) ranges"

fun repeat_rests :: "(char \<times> char) list \<Rightarrow> nat \<Rightarrow> nat \<Rightarrow> string \<Rightarrow> string list" where
  "repeat_rests ranges lo 0 s = (if lo = 0 then [s] else [])"
| "repeat_rests ranges lo (Suc hi) s =
     (if lo = 0 then [s] else []) @
     (case s of
        [] \<Rightarrow> []
      | c # cs \<Rightarrow> if in_class c ranges then repeat_rests ranges (lo - 1) hi cs else [])"

fun match_rests :: "regexp \<Rightarrow> string \<Rightarrow> string list" where
  "match_rests (Repeat ranges lo hi) s = repeat_rests ranges lo hi s"
| "match_rests (Alternate r1 r2) s = match_rests r1 s @ match_rests r2 s"

definition Match_whole :: "regexp \<Rightarrow> string \<Rightarrow> bool" where
  "Match_whole re content = ([] \<in> set (match_rests re content))"

definition state_pattern :: regexp where
  "state_pattern =
     Alternate (Repeat [(CHR ''0'', CHR ''9'')] 0 13)
               (Repeat [(CHR ''0'', CHR ''9''), (CHR ''a'', CHR ''f'')] 24 24)"

text \<open>
  The file system as \<^verbatim>\<open>loadLastEventID\<close> sees it: the error of \<^verbatim>\<open>os.Stat\<close> for a
  path, if there is one, and the result of \<^verbatim>\<open>ioutil.ReadFile\<close>.
\<close>

record filesystem =
  Stat_error :: "string \<Rightarrow> error option"
  ReadFile :: "string \<Rightarrow> error + string"

definition IsNotExist :: "error option \<Rightarrow> bool" where
  "IsNotExist err = (err = Some ErrNotExist)"

definition loadLastEventID :: "filesystem \<Rightarrow> Consumer \<Rightarrow> string \<times> error option" where
  "loadLastEventID fs c =
     (if StateFile (options c) = [] then ([], None)
      else
        (let err = Stat_error fs (StateFile (options c)) in
         if IsNotExist err then
           (if AllowReplication (options c) then (''0'', None) else ([], None))
         else if err = None then
           (case ReadFile fs (StateFile (options c)) of
              Inl err1 \<Rightarrow> ([], Some err1)
            | Inr content \<Rightarrow>
                (content, if \<not> Match_whole state_pattern content then Some ErrInvalidState else None))
         else ([], err)))"

text \<open>
  The pattern of the state file in the words of the specification: one to
  thirteen decimal digits, or exactly 24 hexadecimal characters.
\<close>

definition claimed_state_token :: "string \<Rightarrow> bool" where
  "claimed_state_token content =
     (1 \<le> length content \<and> length content \<le> 13
        \<and> list_all (\<lambda>c. c \<in> set ''0123456789'') content
      \<or> length content = 24 \<and> list_all (\<lambda>c. c \<in> set ''0123456789abcdef'') content)"

section \<open>Values to run the definitions on\<close>

text \<open>
  A stand-in for \<^verbatim>\<open>json.Unmarshal\<close> on three payloads, where it does what the
  library does: \<^verbatim>\<open>null\<close> sets the pointer to \<^verbatim>\<open>nil\<close>; \<^verbatim>\<open>{}\<close> keeps the struct the
  pointer has, or makes one with every field at its zero value; \<^verbatim>\<open>{\<close> is not JSON,
  which the library finds out before it writes anything. Every other text is
  turned down in the same way, also where the library would accept it.
\<close>

definition zero_OperationData :: OperationData where
  "zero_OperationData =
     \<lparr>od_ID = [], od_Type = [], od_Ref = [], od_Timestamp = ''0001-01-01T00:00:00Z'',
      od_Parents = []\<rparr>"

definition unmarshal_small :: unmarshal where
  "unmarshal_small v dst =
     (if v = ''null'' then (False, None)
      else if v = ''{}'' then
        (False, Some (case dst of None \<Rightarrow> zero_OperationData | Some od \<Rightarrow> od))
      else (True, dst))"

definition no_options :: Options where
  "no_options =
     \<lparr>StateFile = [], AllowReplication = False, Password = [],
      Filter = \<lparr>Types = [], Parents = []\<rparr>\<rparr>"

definition insert_op :: "string \<Rightarrow> Operation" where
  "insert_op i = \<lparr>ID = i, Event = ''insert'', Data = Some zero_OperationData\<rparr>"

definition reset_op :: "string \<Rightarrow> Operation" where
  "reset_op i = \<lparr>ID = i, Event = ''reset'', Data = None\<rparr>"

text \<open>
  A file system that holds one file, a server that answers every request with one
  response, and options that name a state file.
\<close>

definition one_file :: "string \<Rightarrow> string \<Rightarrow> filesystem" where
  "one_file path content =
     \<lparr>Stat_error = (\<lambda>p. if p = path then None else Some ErrNotExist),
      ReadFile = (\<lambda>p. if p = path then Inr content else Inl ErrNotExist)\<rparr>"

definition state_options :: "string \<Rightarrow> bool \<Rightarrow> Options" where
  "state_options path repl =
     \<lparr>StateFile = path, AllowReplication = repl, Password = [],
      Filter = \<lparr>Types = [], Parents = []\<rparr>\<rparr>"

definition filter_options :: "string list \<Rightarrow> string list \<Rightarrow> Options" where
  "filter_options types parents =
     \<lparr>StateFile = [], AllowReplication = False, Password = [],
      Filter = \<lparr>Types = types, Parents = parents\<rparr>\<rparr>"

definition server :: "Response \<Rightarrow> network" where
  "server res = \<lparr>NewRequest_error = (\<lambda>u. None), Do = (\<lambda>req. Inr res)\<rparr>"

definition response :: "int \<Rightarrow> (string \<times> string) list \<Rightarrow> string \<Rightarrow> Response" where
  "response code hdrs text = \<lparr>StatusCode = code, Header = map_of hdrs, Body = text\<rparr>"

section \<open>Properties of the ledger\<close>

lemma push_scan_mem: "push_scan i xs \<longleftrightarrow> i \<in> set xs"
  by (induction xs) auto

lemma pull_scan_None: "pull_scan i xs n = None \<longleftrightarrow> i \<notin> set xs"
  by (induction xs arbitrary: n) auto

lemma pull_scan_absent: "i \<notin> set xs \<Longrightarrow> pull_scan i xs n = None"
  by (simp add: pull_scan_None)

lemma pull_ids_absent: "i \<notin> set xs \<Longrightarrow> pull_ids i xs = (- 1, xs)"
  by (simp add: pull_ids_def pull_scan_absent)

lemma pull_ids_head: "pull_ids i (i # xs) = (0, xs)"
  by (simp add: pull_ids_def)

lemma push_ids_present: "i \<in> set xs \<Longrightarrow> push_ids i xs = xs"
  by (simp add: push_ids_def push_scan_mem)

lemma push_ids_absent: "i \<notin> set xs \<Longrightarrow> push_ids i xs = xs @ [i]"
  by (simp add: push_ids_def push_scan_mem)

lemma set_push_ids: "set (push_ids i xs) = insert i (set xs)"
  by (auto simp: push_ids_def push_scan_mem)

text \<open>The loop counts upwards from where it starts.\<close>

lemma pull_scan_ge: "pull_scan i xs n = Some k \<Longrightarrow> n \<le> k"
  by (induction xs arbitrary: n) (auto split: if_splits dest: Suc_leD)

lemma pull_scan_start: "pull_scan i xs n = Some n \<longleftrightarrow> take 1 xs = [i]"
proof (cases xs)
  case Nil
  then show ?thesis by simp
next
  case (Cons x rest)
  then show ?thesis using pull_scan_ge [of i rest "Suc n" n] by auto
qed

text \<open>\<^verbatim>\<open>pull\<close> returns 0 exactly when the id is the first of the sequence.\<close>

lemma fst_pull_ids_0: "fst (pull_ids i xs) = 0 \<longleftrightarrow> take 1 xs = [i]"
proof (cases "pull_scan i xs 0")
  case None
  then have "i \<notin> set xs" by (simp add: pull_scan_None)
  then have "take 1 xs \<noteq> [i]" by (cases xs) auto
  with None show ?thesis by (simp add: pull_ids_def)
next
  case (Some k)
  then show ?thesis using pull_scan_start [of i xs 0] by (auto simp: pull_ids_def)
qed

text \<open>
  C9. For every ledger that a call can enter: pushing an id that is already there
  leaves the ledger, and so its count, as it was; pulling an id that is not there
  returns \<open>-1\<close> and leaves the ledger as it was; pulling the id at position 0
  returns 0 and the sequence loses exactly its first element.
\<close>

theorem C9_ledger_push_pull:
  "(i \<in> set (ids l) \<and> \<not> locked l \<longrightarrow>
      push i l = Completed l \<and> count l = Completed (int (length (ids l))))
   \<and> (j \<notin> set (ids l) \<and> \<not> locked l \<longrightarrow> pull j l = Completed (- 1, l))
   \<and> (ids l = k # rest \<and> \<not> locked l \<longrightarrow> pull k l = Completed (0, l\<lparr>ids := rest\<rparr>))"
  by (simp add: push_def pull_def count_def count_ids_def push_ids_present pull_ids_absent
      pull_ids_head)

theorem C9_ledger_push_pull_witness:
  "''b'' \<in> set (ids \<lparr>ids = [''a'', ''b''], locked = False\<rparr>)
   \<and> ''c'' \<notin> set (ids \<lparr>ids = [''a'', ''b''], locked = False\<rparr>)
   \<and> ids \<lparr>ids = [''a'', ''b''], locked = False\<rparr> = ''a'' # [''b'']
   \<and> \<not> locked \<lparr>ids = [''a'', ''b''], locked = False\<rparr>
   \<and> push ''b'' \<lparr>ids = [''a'', ''b''], locked = False\<rparr>
       = Completed \<lparr>ids = [''a'', ''b''], locked = False\<rparr>
   \<and> count \<lparr>ids = [''a'', ''b''], locked = False\<rparr> = Completed 2
   \<and> pull ''c'' \<lparr>ids = [''a'', ''b''], locked = False\<rparr>
       = Completed (- 1, \<lparr>ids = [''a'', ''b''], locked = False\<rparr>)
   \<and> pull ''a'' \<lparr>ids = [''a'', ''b''], locked = False\<rparr>
       = Completed (0, \<lparr>ids = [''b''], locked = False\<rparr>)"
  using C9_ledger_push_pull
    [of "''b''" "\<lparr>ids = [''a'', ''b''], locked = False\<rparr>" "''c''" "''a''" "[''b'']"]
  by simp

section \<open>The position and the ledger\<close>

lemma Subscribe_fields:
  "ife (Subscribe u opts) = newInFlightEvents"
  "lastId (Subscribe u opts) = []"
  "saved (Subscribe u opts) = False"
  "body (Subscribe u opts) = None"
  "options (Subscribe u opts) = opts"
  by (simp_all add: Subscribe_def Let_def)

text \<open>What one acknowledgement does to the consumer, when the control loop gets through it.\<close>

lemma ack_case_effect:
  assumes "ack_case op c = Completed c'"
  shows "lastId c' = (if take 1 (ids (ife c)) = [ID op] then ID op else lastId c)"
    and "saved c' = (if take 1 (ids (ife c)) = [ID op] then False else saved c)"
    and "ids (ife c') = snd (pull_ids (ID op) (ids (ife c)))"
    and "\<not> locked (ife c')"
  using assms fst_pull_ids_0 [of "ID op" "ids (ife c)"]
  by (auto simp: ack_case_def Unlock_def pull_def SetLastId_def
      split: if_splits outcome.splits prod.splits)

lemma received_plain:
  "\<not> locked (ife c) \<Longrightarrow> Event op \<noteq> ''reset'' \<Longrightarrow>
   received op c = Completed (c\<lparr>ife := (ife c)\<lparr>ids := push_ids (ID op) (ids (ife c))\<rparr>\<rparr>)"
  by (simp add: received_def push_def)

lemma received_reset:
  "\<not> locked (ife c) \<Longrightarrow> Event op = ''reset'' \<Longrightarrow>
   received op c =
     Completed (c\<lparr>ife := (ife c)\<lparr>ids := push_ids (ID op) (ids (ife c)), locked := True\<rparr>\<rparr>)"
  by (simp add: received_def push_def Lock_def)

lemma received_locked: "locked (ife c) \<Longrightarrow> received op c = Blocked"
  by (simp add: received_def push_def)

lemma ack_case_locked: "locked (ife c) \<Longrightarrow> Event op \<noteq> ''reset'' \<Longrightarrow> ack_case op c = Blocked"
  by (simp add: ack_case_def pull_def)

lemma ack_case_plain:
  "\<not> locked (ife c) \<Longrightarrow> Event op \<noteq> ''reset'' \<Longrightarrow>
   ack_case op c =
     Completed (if take 1 (ids (ife c)) = [ID op]
                then SetLastId (ID op) (c\<lparr>ife := (ife c)\<lparr>ids := snd (pull_ids (ID op) (ids (ife c)))\<rparr>\<rparr>)
                else c\<lparr>ife := (ife c)\<lparr>ids := snd (pull_ids (ID op) (ids (ife c)))\<rparr>\<rparr>)"
  using fst_pull_ids_0 [of "ID op" "ids (ife c)"]
  by (auto simp: ack_case_def pull_def split: prod.splits)

lemma ack_case_reset:
  "locked (ife c) \<Longrightarrow> Event op = ''reset'' \<Longrightarrow>
   ack_case op c =
     Completed (if take 1 (ids (ife c)) = [ID op]
                then SetLastId (ID op)
                       (c\<lparr>ife := (ife c)\<lparr>locked := False, ids := snd (pull_ids (ID op) (ids (ife c)))\<rparr>\<rparr>)
                else c\<lparr>ife := (ife c)\<lparr>locked := False, ids := snd (pull_ids (ID op) (ids (ife c)))\<rparr>\<rparr>)"
  using fst_pull_ids_0 [of "ID op" "ids (ife c)"]
  by (auto simp: ack_case_def pull_def Unlock_def split: prod.splits)

lemma run_locked:
  assumes "locked (ife c)" and "sts \<noteq> []" and "\<forall>op. Acked op \<in> set sts \<longrightarrow> Event op \<noteq> ''reset''"
  shows "run sts c = Blocked"
proof (cases sts)
  case Nil
  with assms show ?thesis by simp
next
  case (Cons st rest)
  show ?thesis
  proof (cases st)
    case (Received op)
    with Cons assms show ?thesis by (simp add: received_locked)
  next
    case (Acked op)
    with Cons assms have "Event op \<noteq> ''reset''" by simp
    with Cons Acked assms show ?thesis by (simp add: ack_case_locked)
  qed
qed

lemma run_append:
  "run (sts1 @ sts2) c =
     (case run sts1 c of Blocked \<Rightarrow> Blocked | Fatal \<Rightarrow> Fatal | Completed c1 \<Rightarrow> run sts2 c1)"
  by (induction sts1 arbitrary: c) (auto split: outcome.splits)

text \<open>The scenario of the specification, for any three operations that are not resets.\<close>

lemma acks_out_of_order:
  assumes "ids (ife c0) = []" and "\<not> locked (ife c0)"
    and "Event a \<noteq> ''reset''" and "Event b \<noteq> ''reset''" and "Event d \<noteq> ''reset''"
    and "ID a \<noteq> ID b" and "ID a \<noteq> ID d"
  shows "position (run [Received a, Received b, Received d] c0) = Some (lastId c0)"
    and "position (run [Received a, Received b, Received d, Acked b] c0) = Some (lastId c0)"
    and "position (run [Received a, Received b, Received d, Acked b, Acked d] c0) = Some (lastId c0)"
    and "position (run [Received a, Received b, Received d, Acked b, Acked d, Acked a] c0) = Some (ID a)"
  using assms
  by (simp_all add: received_plain ack_case_plain push_ids_def pull_ids_def position_def
      SetLastId_def)

text \<open>
  C1. In every schedule of pushes and acknowledgements that runs through, an
  acknowledgement sets the position exactly when the acknowledged id is the first
  of the ledger at the time it is pulled, and sets it to that id (marking it as not
  saved); otherwise position and mark stay. With three operations pushed in the
  order a, b, d into an empty ledger and acknowledged in the order b, d, a, the
  position stays through the acknowledgements of b and d and is the id of a after
  the acknowledgement of a.
\<close>

theorem C1_position_advances_at_index_0:
  "(run (sts @ [Acked op]) c = Completed c' \<longrightarrow>
      (\<exists>c1. run sts c = Completed c1
         \<and> lastId c' = (if take 1 (ids (ife c1)) = [ID op] then ID op else lastId c1)
         \<and> saved c' = (if take 1 (ids (ife c1)) = [ID op] then False else saved c1)))
   \<and> (ids (ife c0) = [] \<and> \<not> locked (ife c0)
      \<and> Event a \<noteq> ''reset'' \<and> Event b \<noteq> ''reset'' \<and> Event d \<noteq> ''reset''
      \<and> ID a \<noteq> ID b \<and> ID a \<noteq> ID d \<longrightarrow>
        position (run [Received a, Received b, Received d] c0) = Some (lastId c0)
      \<and> position (run [Received a, Received b, Received d, Acked b] c0) = Some (lastId c0)
      \<and> position (run [Received a, Received b, Received d, Acked b, Acked d] c0)
          = Some (lastId c0)
      \<and> position (run [Received a, Received b, Received d, Acked b, Acked d, Acked a] c0)
          = Some (ID a))"
proof -
  have "\<exists>c1. run sts c = Completed c1
         \<and> lastId c' = (if take 1 (ids (ife c1)) = [ID op] then ID op else lastId c1)
         \<and> saved c' = (if take 1 (ids (ife c1)) = [ID op] then False else saved c1)"
    if r: "run (sts @ [Acked op]) c = Completed c'"
  proof -
    from r obtain c1 where c1: "run sts c = Completed c1" and a: "ack_case op c1 = Completed c'"
      by (auto simp: run_append split: outcome.splits)
    from c1 ack_case_effect(1,2) [OF a] show ?thesis by simp
  qed
  then show ?thesis using acks_out_of_order [of c0 a b d] by blast
qed

theorem C1_position_advances_at_index_0_witness:
  "ids (ife (Subscribe ''http://oplog'' no_options)) = []
   \<and> \<not> locked (ife (Subscribe ''http://oplog'' no_options))
   \<and> Event (insert_op ''A'') \<noteq> ''reset'' \<and> Event (insert_op ''B'') \<noteq> ''reset''
   \<and> Event (insert_op ''C'') \<noteq> ''reset''
   \<and> ID (insert_op ''A'') \<noteq> ID (insert_op ''B'') \<and> ID (insert_op ''A'') \<noteq> ID (insert_op ''C'')
   \<and> position (run [Received (insert_op ''A''), Received (insert_op ''B''),
         Received (insert_op ''C'')] (Subscribe ''http://oplog'' no_options)) = Some []
   \<and> position (run [Received (insert_op ''A''), Received (insert_op ''B''),
         Received (insert_op ''C''), Acked (insert_op ''B'')]
         (Subscribe ''http://oplog'' no_options)) = Some []
   \<and> position (run [Received (insert_op ''A''), Received (insert_op ''B''),
         Received (insert_op ''C''), Acked (insert_op ''B''), Acked (insert_op ''C'')]
         (Subscribe ''http://oplog'' no_options)) = Some []
   \<and> position (run [Received (insert_op ''A''), Received (insert_op ''B''),
         Received (insert_op ''C''), Acked (insert_op ''B''), Acked (insert_op ''C''),
         Acked (insert_op ''A'')] (Subscribe ''http://oplog'' no_options)) = Some ''A''"
proof -
  have h: "ids (ife (Subscribe ''http://oplog'' no_options)) = []
     \<and> \<not> locked (ife (Subscribe ''http://oplog'' no_options))
     \<and> Event (insert_op ''A'') \<noteq> ''reset'' \<and> Event (insert_op ''B'') \<noteq> ''reset''
     \<and> Event (insert_op ''C'') \<noteq> ''reset''
     \<and> ID (insert_op ''A'') \<noteq> ID (insert_op ''B'') \<and> ID (insert_op ''A'') \<noteq> ID (insert_op ''C'')"
    by (simp add: Subscribe_fields newInFlightEvents_def insert_op_def)
  have l: "lastId (Subscribe ''http://oplog'' no_options) = []"
    by (simp add: Subscribe_fields)
  from C1_position_advances_at_index_0
    [of "[]" "insert_op ''A''" "Subscribe ''http://oplog'' no_options" _
        "Subscribe ''http://oplog'' no_options" "insert_op ''A''" "insert_op ''B''"
        "insert_op ''C''"] h l
  show ?thesis by (simp add: insert_op_def)
qed

text \<open>
  C2. Once a \<^verbatim>\<open>reset\<close> has been decoded and pushed, the push of any operation
  decoded after it waits, and so does every schedule that does not begin with the
  acknowledgement of a \<^verbatim>\<open>reset\<close>: the ledger stays as it is. The acknowledgement of
  the \<^verbatim>\<open>reset\<close> goes through and unlocks the ledger, and then the push of the later
  operation goes through and its id is in the ledger.
\<close>

theorem C2_reset_locks_ledger:
  assumes "Event r = ''reset''" and "received r c = Completed c1"
  shows "received x c1 = Blocked
       \<and> (\<forall>sts. sts \<noteq> [] \<and> (\<forall>op. Acked op \<in> set sts \<longrightarrow> Event op \<noteq> ''reset'')
             \<longrightarrow> run sts c1 = Blocked)
       \<and> (\<exists>c2 c3. ack_case r c1 = Completed c2 \<and> \<not> locked (ife c2)
             \<and> received x c2 = Completed c3 \<and> ID x \<in> set (ids (ife c3)))"
proof -
  from assms have l1: "locked (ife c1)"
    by (auto simp: received_def push_def Lock_def split: if_splits outcome.splits)
  have a: "received x c1 = Blocked" using l1 by (rule received_locked)
  have b: "\<forall>sts. sts \<noteq> [] \<and> (\<forall>op. Acked op \<in> set sts \<longrightarrow> Event op \<noteq> ''reset'')
             \<longrightarrow> run sts c1 = Blocked"
    using l1 run_locked by blast
  obtain c2 where c2: "ack_case r c1 = Completed c2"
    using ack_case_reset [OF l1 assms(1)] by simp
  then have u2: "\<not> locked (ife c2)" by (rule ack_case_effect(4))
  have "\<exists>c3. received x c2 = Completed c3 \<and> ID x \<in> set (ids (ife c3))"
  proof (cases "Event x = ''reset''")
    case True
    with u2 show ?thesis by (simp add: received_reset set_push_ids)
  next
    case False
    with u2 show ?thesis by (simp add: received_plain set_push_ids)
  qed
  with a b c2 u2 show ?thesis by blast
qed

theorem C2_reset_locks_ledger_witness:
  "Event (reset_op ''7'') = ''reset''
   \<and> received (reset_op ''7'') (Subscribe ''http://oplog'' no_options)
       = Completed ((Subscribe ''http://oplog'' no_options)\<lparr>ife := \<lparr>ids = [''7''], locked = True\<rparr>\<rparr>)
   \<and> received (insert_op ''8'')
        ((Subscribe ''http://oplog'' no_options)\<lparr>ife := \<lparr>ids = [''7''], locked = True\<rparr>\<rparr>) = Blocked
   \<and> run [Acked (insert_op ''6''), Received (insert_op ''8'')]
        ((Subscribe ''http://oplog'' no_options)\<lparr>ife := \<lparr>ids = [''7''], locked = True\<rparr>\<rparr>) = Blocked
   \<and> position (run [Acked (reset_op ''7''), Received (insert_op ''8'')]
        ((Subscribe ''http://oplog'' no_options)\<lparr>ife := \<lparr>ids = [''7''], locked = True\<rparr>\<rparr>)) = Some ''7''"
proof -
  have h1: "Event (reset_op ''7'') = ''reset''" by (simp add: reset_op_def)
  have h2: "received (reset_op ''7'') (Subscribe ''http://oplog'' no_options)
       = Completed ((Subscribe ''http://oplog'' no_options)\<lparr>ife := \<lparr>ids = [''7''], locked = True\<rparr>\<rparr>)"
    by (simp add: received_def push_def Lock_def reset_op_def Subscribe_fields
        newInFlightEvents_def push_ids_def)
  have n: "\<forall>op. Acked op \<in> set [Acked (insert_op ''6''), Received (insert_op ''8'')]
             \<longrightarrow> Event op \<noteq> ''reset''"
    by (simp add: insert_op_def)
  have p: "position (run [Acked (reset_op ''7''), Received (insert_op ''8'')]
        ((Subscribe ''http://oplog'' no_options)\<lparr>ife := \<lparr>ids = [''7''], locked = True\<rparr>\<rparr>)) = Some ''7''"
    by (simp add: position_def ack_case_def received_def push_def pull_def Unlock_def Lock_def
        reset_op_def insert_op_def pull_ids_def SetLastId_def push_ids_def)
  note t = C2_reset_locks_ledger [OF h1 h2, of "insert_op ''8''"]
  from t have a: "received (insert_op ''8'')
        ((Subscribe ''http://oplog'' no_options)\<lparr>ife := \<lparr>ids = [''7''], locked = True\<rparr>\<rparr>) = Blocked"
    by (rule conjunct1)
  from t have "[Acked (insert_op ''6''), Received (insert_op ''8'')] \<noteq> []
      \<and> (\<forall>op. Acked op \<in> set [Acked (insert_op ''6''), Received (insert_op ''8'')]
             \<longrightarrow> Event op \<noteq> ''reset'')
      \<longrightarrow> run [Acked (insert_op ''6''), Received (insert_op ''8'')]
        ((Subscribe ''http://oplog'' no_options)\<lparr>ife := \<lparr>ids = [''7''], locked = True\<rparr>\<rparr>) = Blocked"
    by blast
  then have b: "run [Acked (insert_op ''6''), Received (insert_op ''8'')]
        ((Subscribe ''http://oplog'' no_options)\<lparr>ife := \<lparr>ids = [''7''], locked = True\<rparr>\<rparr>) = Blocked"
    using n by blast
  from h1 h2 a b p show ?thesis by blast
qed

section \<open>The delays of the read loop\<close>

text \<open>Doubling a delay that an \<^verbatim>\<open>int64\<close> holds gives one that it holds.\<close>

lemma backoff_step_int64:
  "0 \<le> b \<Longrightarrow> b < 2 ^ 63 \<Longrightarrow> 0 \<le> backoff_step b \<and> backoff_step b < 2 ^ 63"
  by (simp add: backoff_step_def Second_def)

lemma backoff_step_delay_after: "backoff_step (delay_after k) = delay_after (Suc k)"
proof (cases "k < 5")
  case True
  then consider "k = 0" | "k = 1" | "k = 2" | "k = 3" | "k = 4" by arith
  then show ?thesis
    by cases (simp_all add: delay_after_def backoff_step_def Second_def)
next
  case False
  then show ?thesis by (simp add: delay_after_def backoff_step_def Second_def)
qed

lemma backoff_step_iterate: "(backoff_step ^^ k) Second = delay_after k"
proof (induction k)
  case 0
  show ?case by (simp add: delay_after_def)
next
  case (Suc k)
  then show ?case by (simp add: backoff_step_delay_after)
qed

lemma delays_reconnect_failures:
  "delays (reconnect_loop b (map Some errs)) = map (\<lambda>k. (backoff_step ^^ k) b) [0..<Suc (length errs)]"
proof (induction errs arbitrary: b)
  case Nil
  show ?case by simp
next
  case (Cons e errs)
  have "map (\<lambda>k. (backoff_step ^^ k) b) [0..<Suc (Suc (length errs))]
      = b # map (\<lambda>k. (backoff_step ^^ k) (backoff_step b)) [0..<Suc (length errs)]"
    by (simp only: upt_conv_Cons [of 0] map_Suc_upt [symmetric] list.map map_map o_def
        funpow_Suc_right funpow_0 zero_less_Suc comp_apply)
  with Cons show ?case by simp
qed

lemma delays_all_failures:
  "delays (readStream (first # map Some (e # errs))) = map delay_after [0..<Suc (length errs)]"
  by (simp add: delays_reconnect_failures backoff_step_iterate del: upt_Suc)

lemma delays_reconnect_Cons: "\<exists>ds. delays (reconnect_loop b results) = b # ds"
proof (cases results)
  case Nil
  then show ?thesis by simp
next
  case (Cons r rs)
  then show ?thesis by (cases r) simp_all
qed

lemma delays_after_success:
  "\<exists>ds. delays (stream_loop b (None # Some e # results)) = Second # ds"
  using delays_reconnect_Cons [of Second results] by simp

lemma delays_after_reconnect:
  "\<exists>ds. delays (reconnect_loop b (None # Some e # results)) = b # backoff_step b # ds"
  using delays_reconnect_Cons [of "backoff_step b" results] by simp

text \<open>
  C3, as stated, fails: when the first connection, the first decoding and the six
  reconnections after it fail, the sixth and the seventh delay are 32 seconds
  each, not 30.
\<close>

theorem C3_counterexample:
  "delays (readStream (replicate 8 (Some ErrConnectionClosed)))
     \<noteq> [1 * Second, 2 * Second, 4 * Second, 8 * Second, 16 * Second, 30 * Second, 30 * Second]"
  by (simp add: numeral_eq_Suc backoff_step_def Second_def)

text \<open>
  C3, amended. When the first decoding and every reconnection after it fail, the
  delays are 1, 2, 4, 8 and 16 seconds and 32 seconds from then on. After an
  operation has been decoded and delivered the delay before the next reconnection
  is one second again, whatever it was. A reconnection that succeeds does not
  reset the delay by itself: when the decoding that follows it fails, the loop
  sleeps for the delay it had reached.
\<close>

theorem C3_backoff_delays:
  "delays (readStream (first # map Some (e # errs)))
     = map (\<lambda>k. if k < 5 then 2 ^ k * Second else 32 * Second) [0..<Suc (length errs)]
   \<and> (\<exists>ds. delays (stream_loop b (None # Some e # results)) = Second # ds)
   \<and> (\<exists>ds. delays (reconnect_loop bb (None # Some ee # later))
             = bb # backoff_step bb # ds)"
  using delays_all_failures [of first e errs] delays_after_success [of b e results]
    delays_after_reconnect [of bb ee later]
  unfolding delay_after_def by blast

theorem C3_backoff_delays_witness:
  "delays (readStream (replicate 8 (Some ErrConnectionClosed)))
     = [Second, 2 * Second, 4 * Second, 8 * Second, 16 * Second, 32 * Second, 32 * Second]
   \<and> (\<exists>ds. delays (stream_loop (32 * Second) [None, Some ErrConnectionClosed]) = Second # ds)
   \<and> (\<exists>ds. delays (reconnect_loop (4 * Second) [None, Some ErrConnectionClosed])
             = 4 * Second # 8 * Second # ds)"
proof -
  have r: "replicate 8 (Some ErrConnectionClosed)
      = Some ErrConnectionClosed # map Some (ErrConnectionClosed # replicate 6 ErrConnectionClosed)"
    by (simp add: numeral_eq_Suc)
  have m: "map (\<lambda>k. if k < 5 then 2 ^ k * Second else 32 * Second)
             [0..<Suc (length (replicate 6 ErrConnectionClosed))]
      = [Second, 2 * Second, 4 * Second, 8 * Second, 16 * Second, 32 * Second, 32 * Second]"
    by (simp add: numeral_eq_Suc upt_rec)
  have s: "backoff_step (4 * Second) = 8 * Second"
    by (simp add: backoff_step_def Second_def)
  from C3_backoff_delays [where first = "Some ErrConnectionClosed" and e = ErrConnectionClosed
      and errs = "replicate 6 ErrConnectionClosed" and b = "32 * Second" and results = "[]"
      and bb = "4 * Second" and ee = ErrConnectionClosed and later = "[]"]
  show ?thesis unfolding r m s by blast
qed

section \<open>The state file\<close>

lemma repeat_rests_iff:
  "r \<in> set (repeat_rests ranges lo hi s) \<longleftrightarrow>
     (\<exists>p. s = p @ r \<and> lo \<le> length p \<and> length p \<le> hi \<and> (\<forall>c\<in>set p. in_class c ranges))"
proof (induction hi arbitrary: lo s)
  case 0
  show ?case by auto
next
  case (Suc hi)
  show ?case (is "?L \<longleftrightarrow> ?R")
  proof
    assume l: ?L
    show ?R
    proof (cases "lo = 0 \<and> r = s")
      case True
      then have "s = [] @ r \<and> lo \<le> length ([]::string) \<and> length ([]::string) \<le> Suc hi
          \<and> (\<forall>c\<in>set []. in_class c ranges)" by simp
      then show ?thesis by blast
    next
      case False
      with l obtain c cs where s: "s = c # cs" and c: "in_class c ranges"
        and r: "r \<in> set (repeat_rests ranges (lo - 1) hi cs)"
        by (auto split: list.splits if_splits)
      from r Suc.IH obtain p where p: "cs = p @ r" "lo - 1 \<le> length p" "length p \<le> hi"
        "\<forall>c\<in>set p. in_class c ranges" by blast
      with s c have "s = (c # p) @ r \<and> lo \<le> length (c # p) \<and> length (c # p) \<le> Suc hi
          \<and> (\<forall>c\<in>set (c # p). in_class c ranges)" by auto
      then show ?thesis by blast
    qed
  next
    assume ?R
    then obtain p where p: "s = p @ r" "lo \<le> length p" "length p \<le> Suc hi"
      "\<forall>c\<in>set p. in_class c ranges" by blast
    show ?L
    proof (cases p)
      case Nil
      with p show ?thesis by simp
    next
      case (Cons c p')
      with p have "cs = p' @ r \<and> lo - 1 \<le> length p' \<and> length p' \<le> hi
          \<and> (\<forall>c\<in>set p'. in_class c ranges)" if "cs = p' @ r" for cs
        using that by auto
      then have "r \<in> set (repeat_rests ranges (lo - 1) hi (p' @ r))"
        using Suc.IH [of "lo - 1" "p' @ r"] by blast
      with p Cons show ?thesis by simp
    qed
  qed
qed

lemma Match_whole_state_pattern:
  "Match_whole state_pattern content \<longleftrightarrow>
     (length content \<le> 13 \<and> (\<forall>c\<in>set content. in_class c [(CHR ''0'', CHR ''9'')]))
     \<or> (length content = 24
        \<and> (\<forall>c\<in>set content. in_class c [(CHR ''0'', CHR ''9''), (CHR ''a'', CHR ''f'')]))"
  by (auto simp: Match_whole_def state_pattern_def repeat_rests_iff)

lemma in_class_digit: "in_class c [(CHR ''0'', CHR ''9'')] \<longleftrightarrow> c \<in> set ''0123456789''"
proof
  assume "in_class c [(CHR ''0'', CHR ''9'')]"
  then have "48 \<le> (of_char c :: nat) \<and> (of_char c :: nat) \<le> 57" by (simp add: in_class_def)
  moreover have "n \<in> {48, 49, 50, 51, 52, 53, 54, 55, 56, 57}" if "48 \<le> n \<and> n \<le> 57" for n :: nat
    using that by (simp, arith)
  ultimately have "(of_char c :: nat) \<in> {48, 49, 50, 51, 52, 53, 54, 55, 56, 57}" by blast
  then have "(of_char c :: nat) \<in> of_char ` set ''0123456789''" by simp
  then show "c \<in> set ''0123456789''" by (auto simp only: of_char_eq_iff)
next
  assume "c \<in> set ''0123456789''"
  then show "in_class c [(CHR ''0'', CHR ''9'')]" by (auto simp: in_class_def)
qed


lemma in_class_hex:
  "in_class c [(CHR ''0'', CHR ''9''), (CHR ''a'', CHR ''f'')] \<longleftrightarrow> c \<in> set ''0123456789abcdef''"
proof
  assume "in_class c [(CHR ''0'', CHR ''9''), (CHR ''a'', CHR ''f'')]"
  then have "48 \<le> (of_char c :: nat) \<and> (of_char c :: nat) \<le> 57
      \<or> 97 \<le> (of_char c :: nat) \<and> (of_char c :: nat) \<le> 102" by (simp add: in_class_def)
  moreover have "n \<in> {48, 49, 50, 51, 52, 53, 54, 55, 56, 57, 97, 98, 99, 100, 101, 102}"
    if "48 \<le> n \<and> n \<le> 57 \<or> 97 \<le> n \<and> n \<le> 102" for n :: nat
    using that by (simp, arith)
  ultimately have "(of_char c :: nat)
      \<in> {48, 49, 50, 51, 52, 53, 54, 55, 56, 57, 97, 98, 99, 100, 101, 102}" by blast
  then have "(of_char c :: nat) \<in> of_char ` set ''0123456789abcdef''" by simp
  then show "c \<in> set ''0123456789abcdef''" by (auto simp only: of_char_eq_iff)
next
  assume "c \<in> set ''0123456789abcdef''"
  then show "in_class c [(CHR ''0'', CHR ''9''), (CHR ''a'', CHR ''f'')]"
    by (auto simp: in_class_def)
qed


text \<open>
  C7, as stated, fails: a state file that exists and is empty is
  loaded without an error, though the empty text is not made of one to thirteen
  digits.
\<close>

theorem C7_counterexample:
  "snd (loadLastEventID (one_file ''state'' [])
          (Subscribe ''http://oplog'' (state_options ''state'' False))) = None
   \<and> \<not> claimed_state_token []"
  by (simp add: loadLastEventID_def one_file_def state_options_def Subscribe_fields
      IsNotExist_def Match_whole_state_pattern claimed_state_token_def)

text \<open>
  C7, amended. With no state file configured \<^verbatim>\<open>loadLastEventID\<close> returns the empty
  token and no error. With a path configured and no file there it returns \<^verbatim>\<open>0\<close>
  when replication is allowed and the empty token otherwise, and no error. When
  the file is there and has been read, it returns the content, with no error
  exactly when the content is at most thirteen decimal digits (none at all
  included) or exactly 24 characters out of \<^verbatim>\<open>0-9a-f\<close>, and with the error for an
  invalid state file otherwise.
\<close>

theorem C7_loadLastEventID:
  "(StateFile (options c) = [] \<longrightarrow> loadLastEventID fs c = ([], None))
   \<and> (StateFile (options ca) \<noteq> [] \<and> Stat_error fsa (StateFile (options ca)) = Some ErrNotExist
        \<longrightarrow> loadLastEventID fsa ca = (if AllowReplication (options ca) then ''0'' else [], None))
   \<and> (StateFile (options cb) \<noteq> [] \<and> Stat_error fsb (StateFile (options cb)) = None
        \<and> ReadFile fsb (StateFile (options cb)) = Inr content
        \<longrightarrow> loadLastEventID fsb cb =
              (content,
               if length content \<le> 13 \<and> set content \<subseteq> set ''0123456789''
                  \<or> length content = 24 \<and> set content \<subseteq> set ''0123456789abcdef''
               then None else Some ErrInvalidState))"
  by (auto simp: loadLastEventID_def IsNotExist_def Match_whole_state_pattern in_class_digit
      in_class_hex subset_iff simp del: set_simps)

theorem C7_loadLastEventID_witness:
  "StateFile (options (Subscribe ''http://oplog'' no_options)) = []
   \<and> loadLastEventID (one_file ''state'' ''42'') (Subscribe ''http://oplog'' no_options)
       = ([], None)
   \<and> StateFile (options (Subscribe ''http://oplog'' (state_options ''state'' True))) \<noteq> []
   \<and> Stat_error (one_file ''elsewhere'' ''42'')
        (StateFile (options (Subscribe ''http://oplog'' (state_options ''state'' True))))
       = Some ErrNotExist
   \<and> loadLastEventID (one_file ''elsewhere'' ''42'')
        (Subscribe ''http://oplog'' (state_options ''state'' True)) = (''0'', None)
   \<and> Stat_error (one_file ''state'' ''1425912345678'')
        (StateFile (options (Subscribe ''http://oplog'' (state_options ''state'' True)))) = None
   \<and> ReadFile (one_file ''state'' ''1425912345678'')
        (StateFile (options (Subscribe ''http://oplog'' (state_options ''state'' True))))
       = Inr ''1425912345678''
   \<and> loadLastEventID (one_file ''state'' ''1425912345678'')
        (Subscribe ''http://oplog'' (state_options ''state'' True)) = (''1425912345678'', None)"
proof -
  have h1: "StateFile (options (Subscribe ''http://oplog'' no_options)) = []"
    by (simp add: Subscribe_fields no_options_def)
  have h2: "StateFile (options (Subscribe ''http://oplog'' (state_options ''state'' True))) \<noteq> []
     \<and> Stat_error (one_file ''elsewhere'' ''42'')
        (StateFile (options (Subscribe ''http://oplog'' (state_options ''state'' True))))
       = Some ErrNotExist"
    by (simp add: Subscribe_fields state_options_def one_file_def)
  have h3: "StateFile (options (Subscribe ''http://oplog'' (state_options ''state'' True))) \<noteq> []
     \<and> Stat_error (one_file ''state'' ''1425912345678'')
        (StateFile (options (Subscribe ''http://oplog'' (state_options ''state'' True)))) = None
     \<and> ReadFile (one_file ''state'' ''1425912345678'')
        (StateFile (options (Subscribe ''http://oplog'' (state_options ''state'' True))))
       = Inr ''1425912345678''"
    by (simp add: Subscribe_fields state_options_def one_file_def)
  have r: "AllowReplication (options (Subscribe ''http://oplog'' (state_options ''state'' True)))"
    by (simp add: Subscribe_fields state_options_def)
  have m: "length ''1425912345678'' \<le> 13 \<and> set ''1425912345678'' \<subseteq> set ''0123456789''"
    by simp
  note t = C7_loadLastEventID
    [where c = "Subscribe ''http://oplog'' no_options" and fs = "one_file ''state'' ''42''"
       and ca = "Subscribe ''http://oplog'' (state_options ''state'' True)"
       and fsa = "one_file ''elsewhere'' ''42''"
       and cb = "Subscribe ''http://oplog'' (state_options ''state'' True)"
       and fsb = "one_file ''state'' ''1425912345678''" and content = "''1425912345678''"]
  from t h1 have a: "loadLastEventID (one_file ''state'' ''42'')
      (Subscribe ''http://oplog'' no_options) = ([], None)" by blast
  from t h2 r have b: "loadLastEventID (one_file ''elsewhere'' ''42'')
        (Subscribe ''http://oplog'' (state_options ''state'' True)) = (''0'', None)"
    by (simp only: simp_thms if_True)
  from t h3 m have c: "loadLastEventID (one_file ''state'' ''1425912345678'')
        (Subscribe ''http://oplog'' (state_options ''state'' True)) = (''1425912345678'', None)"
    by (simp only: simp_thms if_True)
  from h1 h2 h3 a b c show ?thesis by blast
qed

section \<open>Connecting\<close>

text \<open>
  C8. When the request can be built and the server answers, \<^verbatim>\<open>connect\<close> fails with
  \<^verbatim>\<open>ErrResumeFailed\<close> exactly when a position was asked for and the answer does not
  echo it, whatever the status; failing that, with \<^verbatim>\<open>ErrAccessDenied\<close> exactly when
  the status is 401 or 403; failing that, with the error that carries status and
  body exactly when the status is not 200; and it succeeds in what is left, the
  status 200. The body of the consumer is the body of the response after a
  success and the empty one after a failure.
\<close>

theorem C8_connect_classifies:
  "NewRequest_error net (url c) = None \<and> Do net (build_request c) = Inr res \<longrightarrow>
     (fst (connect net c) = Some ErrResumeFailed
        \<longleftrightarrow> lastId c \<noteq> [] \<and> Get (Header res) ''Last-Event-ID'' \<noteq> lastId c)
   \<and> (fst (connect net c) = Some ErrAccessDenied
        \<longleftrightarrow> (lastId c = [] \<or> Get (Header res) ''Last-Event-ID'' = lastId c)
            \<and> (StatusCode res = 401 \<or> StatusCode res = 403))
   \<and> (fst (connect net c) = Some (ErrHTTP (StatusCode res) (Body res))
        \<longleftrightarrow> (lastId c = [] \<or> Get (Header res) ''Last-Event-ID'' = lastId c)
            \<and> StatusCode res \<noteq> 401 \<and> StatusCode res \<noteq> 403 \<and> StatusCode res \<noteq> 200)
   \<and> (fst (connect net c) = None
        \<longleftrightarrow> (lastId c = [] \<or> Get (Header res) ''Last-Event-ID'' = lastId c)
            \<and> StatusCode res = 200)
   \<and> body (snd (connect net c)) = Some (if fst (connect net c) = None then Body res else [])"
proof -
  have b: "build_request (c\<lparr>body := Some []\<rparr>) = build_request c"
    by (simp add: build_request_def LastId_def)
  show ?thesis
    by (simp add: connect_def Let_def b LastId_def)
qed

theorem C8_connect_classifies_witness:
  "NewRequest_error (server (response 401 [] ''denied''))
      (url (SetLastId ''42'' (Subscribe ''http://oplog'' no_options))) = None
   \<and> Do (server (response 401 [] ''denied''))
        (build_request (SetLastId ''42'' (Subscribe ''http://oplog'' no_options)))
       = Inr (response 401 [] ''denied'')
   \<and> fst (connect (server (response 401 [] ''denied''))
        (SetLastId ''42'' (Subscribe ''http://oplog'' no_options))) = Some ErrResumeFailed
   \<and> body (snd (connect (server (response 401 [] ''denied''))
        (SetLastId ''42'' (Subscribe ''http://oplog'' no_options)))) = Some []"
proof -
  have h: "NewRequest_error (server (response 401 [] ''denied''))
      (url (SetLastId ''42'' (Subscribe ''http://oplog'' no_options))) = None
   \<and> Do (server (response 401 [] ''denied''))
        (build_request (SetLastId ''42'' (Subscribe ''http://oplog'' no_options)))
       = Inr (response 401 [] ''denied'')"
    by (simp add: server_def)
  have m: "lastId (SetLastId ''42'' (Subscribe ''http://oplog'' no_options)) \<noteq> []
     \<and> Get (Header (response 401 [] ''denied'')) ''Last-Event-ID''
         \<noteq> lastId (SetLastId ''42'' (Subscribe ''http://oplog'' no_options))"
    by (simp add: SetLastId_def Subscribe_fields response_def Get_def)
  note t = C8_connect_classifies
    [of "server (response 401 [] ''denied'')"
        "SetLastId ''42'' (Subscribe ''http://oplog'' no_options)" "response 401 [] ''denied''"]
  from t h m have a: "fst (connect (server (response 401 [] ''denied''))
        (SetLastId ''42'' (Subscribe ''http://oplog'' no_options))) = Some ErrResumeFailed"
    by blast
  from t h have "body (snd (connect (server (response 401 [] ''denied''))
        (SetLastId ''42'' (Subscribe ''http://oplog'' no_options))))
      = Some (if fst (connect (server (response 401 [] ''denied''))
        (SetLastId ''42'' (Subscribe ''http://oplog'' no_options))) = None
         then Body (response 401 [] ''denied'') else [])" by blast
  with a have b: "body (snd (connect (server (response 401 [] ''denied''))
        (SetLastId ''42'' (Subscribe ''http://oplog'' no_options)))) = Some []" by simp
  from h a b show ?thesis by blast
qed

section \<open>The decoder\<close>

subsection \<open>ReadString\<close>

lemma ReadString_Some:
  "ReadString d c = Some (line, rest) \<Longrightarrow>
     d = line @ rest \<and> line \<noteq> [] \<and> last line = c \<and> c \<notin> set (butlast line)"
  by (induction d arbitrary: line) (auto split: if_splits option.splits)

lemma ReadString_shorter: "ReadString d c = Some (line, rest) \<Longrightarrow> length rest < length d"
  using ReadString_Some [of d c line rest] by auto

lemma ReadString_None: "ReadString d c = None \<Longrightarrow> c \<notin> set d"
  by (induction d) (auto split: if_splits option.splits)

lemma lines_acc_no_newline: "CHR 0x0A \<notin> set p \<Longrightarrow> lines_acc cur p = []"
  by (induction p arbitrary: cur) auto

lemma lines_acc_line:
  "CHR 0x0A \<notin> set p \<Longrightarrow> lines_acc cur (p @ CHR 0x0A # x) = (cur @ p) # lines_acc [] x"
  by (induction p arbitrary: cur) auto

lemma complete_lines_ReadString:
  assumes "ReadString d (CHR 0x0A) = Some (line, rest)"
  shows "complete_lines (line @ x) = butlast line # complete_lines x"
proof -
  from ReadString_Some [OF assms] obtain p where "line = p @ [CHR 0x0A]"
    and "CHR 0x0A \<notin> set p"
    by (cases line rule: rev_cases) auto
  then show ?thesis
    using lines_acc_line [of p "[]" x] by (simp add: complete_lines_def)
qed

lemma complete_lines_append:
  "a = [] \<or> last a = CHR 0x0A \<Longrightarrow> complete_lines (a @ b) = complete_lines a @ complete_lines b"
proof (induction a rule: length_induct)
  case (1 a)
  show ?case
  proof (cases "ReadString a (CHR 0x0A)")
    case None
    then have n: "CHR 0x0A \<notin> set a" by (rule ReadString_None)
    with "1.prems" have "a = []" by (cases a rule: rev_cases) auto
    then show ?thesis by (simp add: complete_lines_def)
  next
    case (Some lr)
    then obtain line rest where lr: "ReadString a (CHR 0x0A) = Some (line, rest)"
      by (cases lr) auto
    from ReadString_Some [OF lr] have a: "a = line @ rest" and ne: "line \<noteq> []"
      and l: "last line = CHR 0x0A" by auto
    from a ne have len: "length rest < length a" by simp
    from "1.prems" a l ne have b: "rest = [] \<or> last rest = CHR 0x0A" by (cases rest) auto
    from "1.IH" len b have "complete_lines (rest @ b) = complete_lines rest @ complete_lines b"
      by blast
    with a show ?thesis
      using complete_lines_ReadString [OF lr, of "rest @ b"] complete_lines_ReadString [OF lr, of rest]
      by simp
  qed
qed

lemma last_id_append:
  "a = [] \<or> last a = CHR 0x0A \<Longrightarrow> last_id i (a @ b) = last_id (last_id i a) b"
  by (simp add: last_id_def complete_lines_append)

lemma last_id_line:
  assumes "ReadString d (CHR 0x0A) = Some (line, rest)"
  shows "last_id i (line @ x) = last_id (case id_line (butlast line) of None \<Rightarrow> i | Some v \<Rightarrow> v) x"
  by (simp add: last_id_def complete_lines_ReadString [OF assms])

lemma last_id_Nil [simp]: "last_id i [] = i"
  by (simp add: last_id_def complete_lines_def)

lemma last_id_no_newline: "CHR 0x0A \<notin> set d \<Longrightarrow> last_id i d = i"
  by (simp add: last_id_def complete_lines_def lines_acc_no_newline)

subsection \<open>One field line\<close>

lemma takeWhile_absent: "c \<notin> set l \<Longrightarrow> takeWhile (\<lambda>x. x \<noteq> c) l = l"
  by (induction l) auto

lemma dropWhile_absent: "c \<notin> set l \<Longrightarrow> dropWhile (\<lambda>x. x \<noteq> c) l = []"
  by (induction l) auto

lemma cut_takeWhile:
  "cut l c = (if c \<in> set l then Some (takeWhile (\<lambda>x. x \<noteq> c) l, drop 1 (dropWhile (\<lambda>x. x \<noteq> c) l))
              else None)"
  by (induction l) auto

lemma SplitN2_field: "SplitN2 l c ! 0 = takeWhile (\<lambda>x. x \<noteq> c) l"
  by (simp add: SplitN2_def cut_takeWhile takeWhile_absent)

lemma SplitN2_value:
  "(if length (SplitN2 l c) = 2 then TrimPrefix (SplitN2 l c ! 1) '' '' else [])
     = (let v = drop 1 (dropWhile (\<lambda>x. x \<noteq> c) l) in if take 1 v = '' '' then drop 1 v else v)"
  by (simp add: SplitN2_def cut_takeWhile TrimPrefix_def HasPrefix_def Let_def
      dropWhile_absent)

lemma TrimSuffix_line: "line \<noteq> [] \<Longrightarrow> last line = c \<Longrightarrow> TrimSuffix line [c] = butlast line"
  by (cases line rule: rev_cases) (auto simp: TrimSuffix_def HasSuffix_def)

lemma HasPrefix_colon: "HasPrefix l '':'' \<Longrightarrow> id_line l = None"
  by (cases l) (auto simp: HasPrefix_def id_line_def)

lemma id_line_Nil [simp]: "id_line [] = None"
  by (simp add: id_line_def)


subsection \<open>The loop\<close>

text \<open>One round of the loop, for an input that has a line left and for one that has not.\<close>

lemma next_loop_closed:
  "ReadString d (CHR 0x0A) = None \<Longrightarrow> next_loop u e st op d = (Some ErrConnectionClosed, op, [])"
  by (subst next_loop.simps) simp

lemma next_loop_line:
  assumes "ReadString d (CHR 0x0A) = Some (line, d1)"
  shows "next_loop u e st op d =
        (if line = [CHR 0x0A] then
           (if st then (None, op, d1) else next_loop u None st op d1)
         else if HasPrefix (butlast line) '':'' then next_loop u None st op d1
         else (case field_switch u None (takeWhile (\<lambda>x. x \<noteq> CHR '':'') (butlast line))
                 (let v = drop 1 (dropWhile (\<lambda>x. x \<noteq> CHR '':'') (butlast line))
                  in if take 1 v = '' '' then drop 1 v else v) op of
                 (e1, op1) \<Rightarrow> next_loop u e1 True op1 d1))"
proof -
  from ReadString_Some [OF assms] have "line \<noteq> []" and "last line = CHR 0x0A" by auto
  then have trim: "TrimSuffix line [CHR 0x0A] = butlast line" by (rule TrimSuffix_line)
  show ?thesis
    by (subst next_loop.simps)
      (simp add: assms trim SplitN2_field SplitN2_value [of "butlast line" "CHR '':''"]
        del: Let_def)
qed

lemma next_loop_scan:
  "next_loop u e st op d = (err, op', rest) \<Longrightarrow>
     \<exists>consumed. d = consumed @ rest \<and> ID op' = last_id (ID op) consumed
       \<and> (rest = [] \<or> consumed = [] \<or> last consumed = CHR 0x0A)"
proof (induction d arbitrary: e st op rule: length_induct)
  case (1 d)
  have IH: "\<exists>consumed. d1 = consumed @ rest \<and> ID op' = last_id (ID op1) consumed
       \<and> (rest = [] \<or> consumed = [] \<or> last consumed = CHR 0x0A)"
    if "length d1 < length d" and "next_loop u e1 st1 op1 d1 = (err, op', rest)"
    for d1 e1 st1 op1
    using "1.IH" that by blast
  show ?case
  proof (cases "ReadString d (CHR 0x0A)")
    case None
    with "1.prems" have "rest = []" and "op' = op"
      by (simp_all add: next_loop_closed)
    moreover from None have "last_id (ID op) d = ID op"
      by (simp add: last_id_no_newline ReadString_None)
    ultimately have "d = d @ rest \<and> ID op' = last_id (ID op) d
       \<and> (rest = [] \<or> d = [] \<or> last d = CHR 0x0A)" by simp
    then show ?thesis by blast
  next
    case (Some lr)
    then obtain line d1 where lr: "ReadString d (CHR 0x0A) = Some (line, d1)"
      by (cases lr) auto
    from ReadString_Some [OF lr] have d: "d = line @ d1" and ne: "line \<noteq> []"
      and l: "last line = CHR 0x0A" by auto
    from ReadString_shorter [OF lr] have len: "length d1 < length d" .
    have step: ?thesis
      if call: "next_loop u e1 st1 op1 d1 = (err, op', rest)"
        and i: "ID op1 = (case id_line (butlast line) of None \<Rightarrow> ID op | Some v \<Rightarrow> v)"
      for e1 st1 op1
    proof -
      from IH [OF len call] obtain consumed where c: "d1 = consumed @ rest"
        "ID op' = last_id (ID op1) consumed"
        "rest = [] \<or> consumed = [] \<or> last consumed = CHR 0x0A" by blast
      from c(2) i have "ID op' = last_id (ID op) (line @ consumed)"
        by (simp add: last_id_line [OF lr])
      moreover from d c(1) have "d = (line @ consumed) @ rest" by simp
      moreover from c(3) l ne have "rest = [] \<or> line @ consumed = []
          \<or> last (line @ consumed) = CHR 0x0A" by (cases "consumed = []") auto
      ultimately show ?thesis by blast
    qed
    note unf = next_loop_line [OF lr, of u e st op]
    show ?thesis
    proof (cases "line = [CHR 0x0A]")
      case True
      then have b: "id_line (butlast line) = None" by simp
      show ?thesis
      proof (cases st)
        case st: True
        from "1.prems" unf True st have "rest = d1" and "op' = op" by simp_all
        with d True have "d = line @ rest \<and> ID op' = last_id (ID op) line
            \<and> (rest = [] \<or> line = [] \<or> last line = CHR 0x0A)"
          using last_id_line [OF lr, of "ID op" "[]"] b by simp
        then show ?thesis by blast
      next
        case st: False
        from "1.prems" unf True st have call: "next_loop u None st op d1 = (err, op', rest)"
          by simp
        show ?thesis by (rule step [OF call]) (simp add: b)
      qed
    next
      case nb: False
      show ?thesis
      proof (cases "HasPrefix (butlast line) '':''")
        case True
        from "1.prems" unf nb True have call: "next_loop u None st op d1 = (err, op', rest)"
          by simp
        show ?thesis by (rule step [OF call]) (simp add: HasPrefix_colon [OF True])
      next
        case False
        from "1.prems" unf nb False obtain e1 op1
          where sw: "field_switch u None (takeWhile (\<lambda>x. x \<noteq> CHR '':'') (butlast line))
                (let v = drop 1 (dropWhile (\<lambda>x. x \<noteq> CHR '':'') (butlast line))
                 in if take 1 v = '' '' then drop 1 v else v) op = (e1, op1)"
            and call: "next_loop u e1 True op1 d1 = (err, op', rest)"
          by (simp del: Let_def split: prod.splits)
        from sw have i: "ID op1 = (case id_line (butlast line) of None \<Rightarrow> ID op | Some v \<Rightarrow> v)"
          by (auto simp: field_switch_def id_line_def Let_def split: if_splits prod.splits)
        from call i show ?thesis by (rule step)
      qed
    qed
  qed
qed

lemma next_scan:
  assumes "next u op d = (err, op', rest)"
  shows "\<exists>consumed. d = consumed @ rest \<and> ID op' = last_id (ID op) consumed
       \<and> (rest = [] \<or> consumed = [] \<or> last consumed = CHR 0x0A)"
proof -
  from assms obtain e1 where "next_loop u None False (op\<lparr>Event := [], Data := None\<rparr>) d = (e1, op', rest)"
    by (auto simp: next_def Let_def split: prod.splits)
  from next_loop_scan [OF this] show ?thesis by simp
qed

lemma next_times_scan:
  "next_times u n op d = (op', rest) \<Longrightarrow>
     \<exists>consumed. d = consumed @ rest \<and> ID op' = last_id (ID op) consumed
       \<and> (rest = [] \<or> consumed = [] \<or> last consumed = CHR 0x0A)"
proof (induction n arbitrary: op d)
  case 0
  then have "d = [] @ rest \<and> ID op' = last_id (ID op) []
       \<and> (rest = [] \<or> ([]::string) = [] \<or> last [] = CHR 0x0A)" by simp
  then show ?case by blast
next
  case (Suc n)
  from Suc.prems obtain e1 op1 d1 where n1: "next u op d = (e1, op1, d1)"
    and nt: "next_times u n op1 d1 = (op', rest)"
    by (auto split: prod.splits)
  from next_scan [OF n1] obtain a where a: "d = a @ d1" "ID op1 = last_id (ID op) a"
    "d1 = [] \<or> a = [] \<or> last a = CHR 0x0A" by blast
  from Suc.IH [OF nt] obtain b where b: "d1 = b @ rest" "ID op' = last_id (ID op1) b"
    "rest = [] \<or> b = [] \<or> last b = CHR 0x0A" by blast
  have i: "ID op' = last_id (ID op) (a @ b)"
  proof (cases "d1 = []")
    case True
    with b a show ?thesis by simp
  next
    case False
    with a(3) have "a = [] \<or> last a = CHR 0x0A" by simp
    then show ?thesis using a(2) b(2) by (simp add: last_id_append)
  qed
  have "rest = [] \<or> a @ b = [] \<or> last (a @ b) = CHR 0x0A"
  proof (cases "b = []")
    case True
    with a(3) b(1) show ?thesis by auto
  next
    case False
    with b(3) show ?thesis by auto
  qed
  with a(1) b(1) i have "d = (a @ b) @ rest \<and> ID op' = last_id (ID op) (a @ b)
       \<and> (rest = [] \<or> a @ b = [] \<or> last (a @ b) = CHR 0x0A)" by simp
  then show ?case by blast
qed

lemma last_id_no_id_line:
  "list_all (\<lambda>l. id_line l = None) (complete_lines s) \<Longrightarrow> last_id i s = i"
proof -
  have "list_all (\<lambda>l. id_line l = None) ls \<Longrightarrow>
          foldl (\<lambda>j l. case id_line l of None \<Rightarrow> j | Some v \<Rightarrow> v) i ls = i" for ls
    by (induction ls) auto
  then show "list_all (\<lambda>l. id_line l = None) (complete_lines s) \<Longrightarrow> last_id i s = i"
    by (simp add: last_id_def)
qed

text \<open>
  C10. \<^verbatim>\<open>next\<close> clears the event and the data of the scratch operation and leaves
  its id. After any number of calls on one decoder with one scratch operation, a
  call that decodes a record leaves in the operation the value of the last id line
  of all the text read so far, and the id the operation had at the start when
  there is none (the empty string for a fresh operation). So a record without an
  id line carries the id of the last id line before it.
\<close>

theorem C10_stale_id:
  "next_times u n op0 d0 = (op1, d1) \<and> next u op1 d1 = (None, op2, d2)
   \<and> d0 = earlier @ d1 \<and> d1 = record @ d2 \<longrightarrow>
     ID op2 = last_id (ID op0) (earlier @ record)
     \<and> (list_all (\<lambda>l. id_line l = None) (complete_lines record) \<longrightarrow>
          ID op2 = last_id (ID op0) earlier)
     \<and> (list_all (\<lambda>l. id_line l = None) (complete_lines (earlier @ record)) \<longrightarrow>
          ID op2 = ID op0)"
proof (intro impI, elim conjE)
  assume nt: "next_times u n op0 d0 = (op1, d1)" and nx: "next u op1 d1 = (None, op2, d2)"
    and d0: "d0 = earlier @ d1" and d1: "d1 = record @ d2"
  from next_times_scan [OF nt] d0 have e: "ID op1 = last_id (ID op0) earlier"
    and eb: "d1 = [] \<or> earlier = [] \<or> last earlier = CHR 0x0A" by auto
  from next_scan [OF nx] d1 have r: "ID op2 = last_id (ID op1) record" by auto
  have "d1 \<noteq> []"
  proof
    assume "d1 = []"
    with nx show False
      by (simp add: next_def next_loop.simps [of _ _ _ _ "[]"] Let_def Validate_def)
  qed
  with eb have "earlier = [] \<or> last earlier = CHR 0x0A" by simp
  then have all: "ID op2 = last_id (ID op0) (earlier @ record)"
    using e r by (simp add: last_id_append)
  moreover have "ID op2 = last_id (ID op0) earlier"
    if "list_all (\<lambda>l. id_line l = None) (complete_lines record)"
    using that r e by (simp add: last_id_no_id_line)
  moreover have "ID op2 = ID op0"
    if "list_all (\<lambda>l. id_line l = None) (complete_lines (earlier @ record))"
    using that all by (simp add: last_id_no_id_line)
  ultimately show "ID op2 = last_id (ID op0) (earlier @ record)
     \<and> (list_all (\<lambda>l. id_line l = None) (complete_lines record) \<longrightarrow>
          ID op2 = last_id (ID op0) earlier)
     \<and> (list_all (\<lambda>l. id_line l = None) (complete_lines (earlier @ record)) \<longrightarrow>
          ID op2 = ID op0)" by blast
qed

theorem C10_stale_id_witness:
  "next_times unmarshal_small 1 empty_Operation
      ''id: 1\<newline>event: live\<newline>\<newline>event: insert\<newline>data: {}\<newline>\<newline>''
     = (\<lparr>ID = ''1'', Event = ''live'', Data = None\<rparr>,
        ''event: insert\<newline>data: {}\<newline>\<newline>'')
   \<and> next unmarshal_small \<lparr>ID = ''1'', Event = ''live'', Data = None\<rparr>
        ''event: insert\<newline>data: {}\<newline>\<newline>''
     = (None, \<lparr>ID = ''1'', Event = ''insert'', Data = Some zero_OperationData\<rparr>, [])
   \<and> list_all (\<lambda>l. id_line l = None)
        (complete_lines ''event: insert\<newline>data: {}\<newline>\<newline>'')
   \<and> last_id (ID empty_Operation) ''id: 1\<newline>event: live\<newline>\<newline>'' = ''1''
   \<and> ID \<lparr>ID = ''1'', Event = ''insert'', Data = Some zero_OperationData\<rparr>
       = last_id (ID empty_Operation) ''id: 1\<newline>event: live\<newline>\<newline>''"
proof -
  have h1: "next_times unmarshal_small 1 empty_Operation
      ''id: 1\<newline>event: live\<newline>\<newline>event: insert\<newline>data: {}\<newline>\<newline>''
     = (\<lparr>ID = ''1'', Event = ''live'', Data = None\<rparr>,
        ''event: insert\<newline>data: {}\<newline>\<newline>'')"
    by (simp add: next_def next_loop.simps Let_def empty_Operation_def Validate_def
        HasPrefix_def TrimSuffix_def HasSuffix_def TrimPrefix_def SplitN2_def field_switch_def
        unmarshal_small_def)
  have h2: "next unmarshal_small \<lparr>ID = ''1'', Event = ''live'', Data = None\<rparr>
        ''event: insert\<newline>data: {}\<newline>\<newline>''
     = (None, \<lparr>ID = ''1'', Event = ''insert'', Data = Some zero_OperationData\<rparr>, [])"
    by (simp add: next_def next_loop.simps Let_def empty_Operation_def Validate_def
        HasPrefix_def TrimSuffix_def HasSuffix_def TrimPrefix_def SplitN2_def field_switch_def
        unmarshal_small_def)
  have h3: "''id: 1\<newline>event: live\<newline>\<newline>event: insert\<newline>data: {}\<newline>\<newline>''
      = ''id: 1\<newline>event: live\<newline>\<newline>'' @ ''event: insert\<newline>data: {}\<newline>\<newline>''"
    by simp
  have h4: "''event: insert\<newline>data: {}\<newline>\<newline>''
      = ''event: insert\<newline>data: {}\<newline>\<newline>'' @ []"
    by simp
  have h5: "list_all (\<lambda>l. id_line l = None)
        (complete_lines ''event: insert\<newline>data: {}\<newline>\<newline>'')"
    by (simp add: complete_lines_def id_line_def)
  have v: "last_id (ID empty_Operation) ''id: 1\<newline>event: live\<newline>\<newline>'' = ''1''"
    by (simp add: last_id_def complete_lines_def id_line_def empty_Operation_def)
  from C10_stale_id
    [of unmarshal_small 1 empty_Operation
      "''id: 1\<newline>event: live\<newline>\<newline>event: insert\<newline>data: {}\<newline>\<newline>''"
      "\<lparr>ID = ''1'', Event = ''live'', Data = None\<rparr>"
      "''event: insert\<newline>data: {}\<newline>\<newline>''"
      "\<lparr>ID = ''1'', Event = ''insert'', Data = Some zero_OperationData\<rparr>" "[]"
      "''id: 1\<newline>event: live\<newline>\<newline>''"
      "''event: insert\<newline>data: {}\<newline>\<newline>''"]
    h1 h2 h3 h4 h5
  have c: "ID \<lparr>ID = ''1'', Event = ''insert'', Data = Some zero_OperationData\<rparr>
       = last_id (ID empty_Operation) ''id: 1\<newline>event: live\<newline>\<newline>''"
    by blast
  from h1 h2 h5 v c show ?thesis by blast
qed

subsection \<open>The errors of \<^verbatim>\<open>next\<close>\<close>

text \<open>The loop ends with no error or with \<^verbatim>\<open>ErrConnectionClosed\<close>, never with the error of the \<^verbatim>\<open>data\<close> case.\<close>

lemma next_loop_err:
  "next_loop u e st op d = (err, op', rest) \<Longrightarrow> err = None \<or> err = Some ErrConnectionClosed"
proof (induction d arbitrary: e st op rule: length_induct)
  case (1 d)
  have IH: "err = None \<or> err = Some ErrConnectionClosed"
    if "length d1 < length d" and "next_loop u e1 st1 op1 d1 = (err, op', rest)"
    for d1 e1 st1 op1
    using "1.IH" that by blast
  show ?case
  proof (cases "ReadString d (CHR 0x0A)")
    case None
    with "1.prems" show ?thesis by (simp add: next_loop_closed)
  next
    case (Some lr)
    then obtain line d1 where lr: "ReadString d (CHR 0x0A) = Some (line, d1)"
      by (cases lr) auto
    note len = ReadString_shorter [OF lr]
    from "1.prems" have "(\<exists>e1 st1 op1. next_loop u e1 st1 op1 d1 = (err, op', rest)) \<or> err = None"
      unfolding next_loop_line [OF lr, of u e st op]
      by (auto simp del: Let_def split: if_splits prod.splits)
    then show ?thesis using IH [OF len] by blast
  qed
qed

lemma next_never_incomplete: "fst (next u op d) \<noteq> Some ErrIncompleteEvent"
  by (auto simp: next_def Let_def Validate_def split: prod.splits dest: next_loop_err)

text \<open>
  C4. \<^verbatim>\<open>next\<close> never returns \<^verbatim>\<open>ErrIncompleteEvent\<close>: an operation without an event
  is not valid, and the check of validity that follows replaces the error. On a
  record that has an id and no event the result is \<^verbatim>\<open>ErrInvalidEvent\<close>.
\<close>

theorem C4_incomplete_event_overwritten:
  "fst (next u op d) \<noteq> Some ErrIncompleteEvent
   \<and> next u empty_Operation ''id: 1\<newline>\<newline>''
       = (Some ErrInvalidEvent, \<lparr>ID = ''1'', Event = [], Data = None\<rparr>, [])"
proof -
  have "next u empty_Operation ''id: 1\<newline>\<newline>''
       = (Some ErrInvalidEvent, \<lparr>ID = ''1'', Event = [], Data = None\<rparr>, [])"
    by (simp add: next_def next_loop.simps Let_def empty_Operation_def Validate_def
        HasPrefix_def TrimSuffix_def HasSuffix_def TrimPrefix_def SplitN2_def field_switch_def)
  with next_never_incomplete [of u op d] show ?thesis by simp
qed

text \<open>
  C5. On an input that ends at once \<^verbatim>\<open>next\<close> returns \<^verbatim>\<open>ErrInvalidEvent\<close>: the check
  of validity replaces \<^verbatim>\<open>ErrConnectionClosed\<close> whenever the fields read so far do
  not make a valid operation. \<^verbatim>\<open>ErrConnectionClosed\<close> is returned when they do.
\<close>

theorem C5_connection_closed_overwritten:
  "next u op [] = (Some ErrInvalidEvent, op\<lparr>Event := [], Data := None\<rparr>, [])
   \<and> next u empty_Operation ''id: 1\<newline>event: insert\<newline>''
       = (Some ErrInvalidEvent, \<lparr>ID = ''1'', Event = ''insert'', Data = None\<rparr>, [])
   \<and> next u empty_Operation ''id: 1\<newline>event: live\<newline>''
       = (Some ErrConnectionClosed, \<lparr>ID = ''1'', Event = ''live'', Data = None\<rparr>, [])"
  by (simp add: next_def next_loop.simps Let_def empty_Operation_def Validate_def
      HasPrefix_def TrimSuffix_def HasSuffix_def TrimPrefix_def SplitN2_def field_switch_def)

text \<open>
  C6. A \<^verbatim>\<open>reset\<close> record whose data is not JSON is decoded without an error,
  whenever \<^verbatim>\<open>json.Unmarshal\<close> fails on the text \<^verbatim>\<open>{\<close> and leaves the \<^verbatim>\<open>nil\<close> pointer
  as it is: the error of the \<^verbatim>\<open>data\<close> case is lost when the loop reads the next
  line, and a \<^verbatim>\<open>reset\<close> is valid without data.
\<close>

theorem C6_invalid_data_accepted:
  "u ''{'' None = (True, None) \<longrightarrow>
     next u empty_Operation ''event: reset\<newline>data: {\<newline>\<newline>''
       = (None, \<lparr>ID = [], Event = ''reset'', Data = None\<rparr>, [])"
  by (simp add: next_def next_loop.simps Let_def empty_Operation_def Validate_def
      HasPrefix_def TrimSuffix_def HasSuffix_def TrimPrefix_def SplitN2_def field_switch_def)

theorem C6_invalid_data_accepted_witness:
  "unmarshal_small ''{'' None = (True, None)
   \<and> next unmarshal_small empty_Operation ''event: reset\<newline>data: {\<newline>\<newline>''
       = (None, \<lparr>ID = [], Event = ''reset'', Data = None\<rparr>, [])"
proof -
  have h: "unmarshal_small ''{'' None = (True, None)"
    by (simp add: unmarshal_small_def)
  from C6_invalid_data_accepted [of unmarshal_small] h show ?thesis by blast
qed

section \<open>Further properties\<close>

text \<open>
  X1. While a \<^verbatim>\<open>reset\<close> that has been pushed waits for its acknowledgement, the
  acknowledgement of any other operation makes the control loop wait in \<^verbatim>\<open>Pull\<close>
  for the mutex that only the control loop itself unlocks: no schedule that
  begins with it gets further.
\<close>

theorem X1_ack_before_reset_ack_waits:
  "Event r = ''reset'' \<and> received r c = Completed c1 \<and> Event a \<noteq> ''reset'' \<longrightarrow>
     ack_case a c1 = Blocked \<and> run (Acked a # sts) c1 = Blocked"
proof (intro impI, elim conjE)
  assume r: "Event r = ''reset''" "received r c = Completed c1" and a: "Event a \<noteq> ''reset''"
  from r have "locked (ife c1)"
    by (auto simp: received_def push_def Lock_def split: if_splits outcome.splits)
  with a have "ack_case a c1 = Blocked" by (simp add: ack_case_locked)
  then show "ack_case a c1 = Blocked \<and> run (Acked a # sts) c1 = Blocked" by simp
qed

theorem X1_ack_before_reset_ack_waits_witness:
  "Event (reset_op ''7'') = ''reset''
   \<and> received (reset_op ''7'')
        ((Subscribe ''http://oplog'' no_options)\<lparr>ife := \<lparr>ids = [''6''], locked = False\<rparr>\<rparr>)
       = Completed ((Subscribe ''http://oplog'' no_options)
            \<lparr>ife := \<lparr>ids = [''6'', ''7''], locked = True\<rparr>\<rparr>)
   \<and> Event (insert_op ''6'') \<noteq> ''reset''
   \<and> run [Acked (insert_op ''6''), Acked (reset_op ''7'')]
        ((Subscribe ''http://oplog'' no_options)
            \<lparr>ife := \<lparr>ids = [''6'', ''7''], locked = True\<rparr>\<rparr>) = Blocked"
proof -
  have h: "Event (reset_op ''7'') = ''reset''
   \<and> received (reset_op ''7'')
        ((Subscribe ''http://oplog'' no_options)\<lparr>ife := \<lparr>ids = [''6''], locked = False\<rparr>\<rparr>)
       = Completed ((Subscribe ''http://oplog'' no_options)
            \<lparr>ife := \<lparr>ids = [''6'', ''7''], locked = True\<rparr>\<rparr>)
   \<and> Event (insert_op ''6'') \<noteq> ''reset''"
    by (simp add: received_def push_def Lock_def reset_op_def insert_op_def push_ids_def)
  from X1_ack_before_reset_ack_waits
    [of "reset_op ''7''"
        "(Subscribe ''http://oplog'' no_options)\<lparr>ife := \<lparr>ids = [''6''], locked = False\<rparr>\<rparr>"
        "(Subscribe ''http://oplog'' no_options)\<lparr>ife := \<lparr>ids = [''6'', ''7''], locked = True\<rparr>\<rparr>"
        "insert_op ''6''" "[Acked (reset_op ''7'')]"] h
  show ?thesis by blast
qed

text \<open>
  X2. When \<^verbatim>\<open>next\<close> returns no error, the operation has an event, and it has data
  or its event is \<^verbatim>\<open>reset\<close> or \<^verbatim>\<open>live\<close>.
\<close>

theorem X2_decoded_operation_is_valid:
  "next u op d = (None, op1, rest) \<longrightarrow>
     Event op1 \<noteq> [] \<and> (Data op1 \<noteq> None \<or> Event op1 = ''reset'' \<or> Event op1 = ''live'')"
  by (auto simp: next_def Let_def Validate_def split: prod.splits if_splits)

theorem X2_decoded_operation_is_valid_witness:
  "next unmarshal_small empty_Operation ''id: 3\<newline>event: insert\<newline>data: {}\<newline>\<newline>''
     = (None, \<lparr>ID = ''3'', Event = ''insert'', Data = Some zero_OperationData\<rparr>, [])
   \<and> Event \<lparr>ID = ''3'', Event = ''insert'', Data = Some zero_OperationData\<rparr> \<noteq> []
   \<and> (Data \<lparr>ID = ''3'', Event = ''insert'', Data = Some zero_OperationData\<rparr> \<noteq> None
      \<or> Event \<lparr>ID = ''3'', Event = ''insert'', Data = Some zero_OperationData\<rparr> = ''reset''
      \<or> Event \<lparr>ID = ''3'', Event = ''insert'', Data = Some zero_OperationData\<rparr> = ''live'')"
proof -
  have h: "next unmarshal_small empty_Operation ''id: 3\<newline>event: insert\<newline>data: {}\<newline>\<newline>''
     = (None, \<lparr>ID = ''3'', Event = ''insert'', Data = Some zero_OperationData\<rparr>, [])"
    by (simp add: next_def next_loop.simps Let_def empty_Operation_def Validate_def
        HasPrefix_def TrimSuffix_def HasSuffix_def TrimPrefix_def SplitN2_def field_switch_def
        unmarshal_small_def)
  from X2_decoded_operation_is_valid
    [of unmarshal_small empty_Operation
        "''id: 3\<newline>event: insert\<newline>data: {}\<newline>\<newline>''"
        "\<lparr>ID = ''3'', Event = ''insert'', Data = Some zero_OperationData\<rparr>" "[]"] h
  show ?thesis by blast
qed

text \<open>
  X3. \<^verbatim>\<open>Subscribe\<close> leaves the URL as it is when both filters are empty lists; when
  both joined filters are non-empty it appends the parents, then the types; when
  only the joined types are non-empty it appends them alone.
\<close>

theorem X3_subscribe_url:
  "(Types (Filter opts) = [] \<and> Parents (Filter opts) = [] \<longrightarrow> url (Subscribe u opts) = u)
   \<and> (Join (Parents (Filter optsa)) '','' \<noteq> [] \<and> Join (Types (Filter optsa)) '','' \<noteq> [] \<longrightarrow>
        url (Subscribe ua optsa)
          = ua @ ''?parents='' @ Join (Parents (Filter optsa)) '','' @ ''&types=''
               @ Join (Types (Filter optsa)) '','')
   \<and> (Join (Parents (Filter optsb)) '','' = [] \<and> Join (Types (Filter optsb)) '','' \<noteq> [] \<longrightarrow>
        url (Subscribe ub optsb) = ub @ ''?types='' @ Join (Types (Filter optsb)) '','')"
  by (auto simp: Subscribe_def Let_def)


theorem X3_subscribe_url_witness:
  "Types (Filter no_options) = [] \<and> Parents (Filter no_options) = []
   \<and> url (Subscribe ''http://oplog'' no_options) = ''http://oplog''
   \<and> Join (Parents (Filter (filter_options [''video'', ''user''] [''user/x'']))) '','' \<noteq> []
   \<and> Join (Types (Filter (filter_options [''video'', ''user''] [''user/x'']))) '','' \<noteq> []
   \<and> url (Subscribe ''http://oplog'' (filter_options [''video'', ''user''] [''user/x'']))
       = ''http://oplog?parents=user/x&types=video,user''
   \<and> Join (Parents (Filter (filter_options [''video''] []))) '','' = []
   \<and> Join (Types (Filter (filter_options [''video''] []))) '','' \<noteq> []
   \<and> url (Subscribe ''http://oplog'' (filter_options [''video''] []))
       = ''http://oplog?types=video''"
proof -
  have h: "Types (Filter no_options) = [] \<and> Parents (Filter no_options) = []"
    by (simp add: no_options_def)
  have ha: "Join (Parents (Filter (filter_options [''video'', ''user''] [''user/x'']))) '','' \<noteq> []
     \<and> Join (Types (Filter (filter_options [''video'', ''user''] [''user/x'']))) '','' \<noteq> []"
    by (simp add: filter_options_def)
  have hb: "Join (Parents (Filter (filter_options [''video''] []))) '','' = []
     \<and> Join (Types (Filter (filter_options [''video''] []))) '','' \<noteq> []"
    by (simp add: filter_options_def)
  have ja: "''http://oplog'' @ ''?parents=''
        @ Join (Parents (Filter (filter_options [''video'', ''user''] [''user/x'']))) '',''
        @ ''&types='' @ Join (Types (Filter (filter_options [''video'', ''user''] [''user/x'']))) '',''
      = ''http://oplog?parents=user/x&types=video,user''"
    by (simp add: filter_options_def)
  have jb: "''http://oplog'' @ ''?types='' @ Join (Types (Filter (filter_options [''video''] []))) '',''
      = ''http://oplog?types=video''"
    by (simp add: filter_options_def)
  note t = X3_subscribe_url
    [where opts = no_options and u = "''http://oplog''"
       and optsa = "filter_options [''video'', ''user''] [''user/x'']" and ua = "''http://oplog''"
       and optsb = "filter_options [''video''] []" and ub = "''http://oplog''"]
  from t h have a: "url (Subscribe ''http://oplog'' no_options) = ''http://oplog''" by blast
  from t ha have "url (Subscribe ''http://oplog'' (filter_options [''video'', ''user''] [''user/x'']))
      = ''http://oplog'' @ ''?parents=''
        @ Join (Parents (Filter (filter_options [''video'', ''user''] [''user/x'']))) '',''
        @ ''&types='' @ Join (Types (Filter (filter_options [''video'', ''user''] [''user/x'']))) '',''"
    by blast
  from this ja have b: "url (Subscribe ''http://oplog'' (filter_options [''video'', ''user''] [''user/x'']))
       = ''http://oplog?parents=user/x&types=video,user''" by (rule trans)
  from t hb have "url (Subscribe ''http://oplog'' (filter_options [''video''] []))
      = ''http://oplog'' @ ''?types='' @ Join (Types (Filter (filter_options [''video''] []))) '',''"
    by blast
  from this jb have c: "url (Subscribe ''http://oplog'' (filter_options [''video''] []))
       = ''http://oplog?types=video''" by (rule trans)
  from h ha hb a b c show ?thesis by blast
qed

end
